theory Spec2Isabelle
  imports Complex_Main "HOL-Library.Multiset" "HOL-Library.Product_Lexorder"
begin

section \<open>Floating-point values\<close>

text \<open>
  The program computes on numpy \<open>float64\<close> values.  A value is modelled as a finite real,
  one of the two infinities, or NaN.  The special values follow IEEE 754 (division by
  zero gives an infinity or NaN and never raises, NaN is absorbing, \<open>inf * 0\<close> and
  \<open>inf - inf\<close> are NaN).  The sign of zero is not modelled (a zero divisor counts as
  \<open>+0\<close>).

  The operations \<open>fadd\<close>, \<open>fsub\<close>, \<open>fmul\<close> and \<open>fdiv\<close> return the exact real result on
  finite operands, and the scoring functions are built from them.  A finite figure
  stated below for a given series is the figure up to the rounding of binary64.  The
  general statements about the scoring functions concern the special values, or equate
  two computations made of the same operations, which holds however a finite result is
  rounded.  No general statement concludes from finite prices that a score is finite or
  defined: in binary64 a ratio or a product of finite values can overflow
  (\<open>binary64_overflow\<close> below).

  The ranker turns a float into an integer, and there the rounding of every operation
  decides the result.  \<open>f64\<close> rounds a real to the nearest binary64 value, ties to even:
  a 53-bit significand, exponents from \<open>-1022\<close> (below it the subnormal spacing
  \<open>2 ^ (-1074)\<close>) to \<open>1023\<close>, and an infinity from \<open>2 ^ 1024\<close> on.  \<open>fdiv64\<close> and
  \<open>fmul64\<close> are the correctly rounded division and multiplication.
\<close>

datatype fl = Fin real | PInf | NInf | NaN

fun isnan :: "fl \<Rightarrow> bool" where
  "isnan NaN = True"
| "isnan _ = False"

definition inf_of_sign :: "real \<Rightarrow> fl" where
  "inf_of_sign s = (if s > 0 then PInf else if s < 0 then NInf else NaN)"

fun sign_of :: "fl \<Rightarrow> real" where
  "sign_of (Fin a) = sgn a"
| "sign_of PInf = 1"
| "sign_of NInf = - 1"
| "sign_of NaN = 0"

fun fneg :: "fl \<Rightarrow> fl" where
  "fneg (Fin a) = Fin (- a)"
| "fneg PInf = NInf"
| "fneg NInf = PInf"
| "fneg NaN = NaN"

fun fadd :: "fl \<Rightarrow> fl \<Rightarrow> fl" where
  "fadd (Fin a) (Fin b) = Fin (a + b)"
| "fadd NaN _ = NaN"
| "fadd _ NaN = NaN"
| "fadd PInf NInf = NaN"
| "fadd NInf PInf = NaN"
| "fadd PInf _ = PInf"
| "fadd _ PInf = PInf"
| "fadd NInf _ = NInf"
| "fadd _ NInf = NInf"

definition fsub :: "fl \<Rightarrow> fl \<Rightarrow> fl" where
  "fsub a b = fadd a (fneg b)"

fun fmul :: "fl \<Rightarrow> fl \<Rightarrow> fl" where
  "fmul (Fin a) (Fin b) = Fin (a * b)"
| "fmul NaN _ = NaN"
| "fmul _ NaN = NaN"
| "fmul x y = inf_of_sign (sign_of x * sign_of y)"

fun fdiv :: "fl \<Rightarrow> fl \<Rightarrow> fl" where
  "fdiv (Fin a) (Fin b) = (if b = 0 then inf_of_sign (sgn a) else Fin (a / b))"
| "fdiv NaN _ = NaN"
| "fdiv _ NaN = NaN"
| "fdiv (Fin a) _ = Fin 0"
| "fdiv x (Fin b) = inf_of_sign (sign_of x * (if b < 0 then - 1 else 1))"
| "fdiv _ _ = NaN"

definition round_half_even :: "real \<Rightarrow> int" where
  "round_half_even x =
     (let f = \<lfloor>x\<rfloor>; d = x - of_int f
      in if d < 1 / 2 then f else if 1 / 2 < d then f + 1
         else if even f then f else f + 1)"

definition f64_exponent :: "real \<Rightarrow> int" where
  "f64_exponent x = max \<lfloor>log 2 \<bar>x\<bar>\<rfloor> (- 1022)"

definition f64_ulp :: "real \<Rightarrow> real" where
  "f64_ulp x = 2 powi (f64_exponent x - 52)"

definition f64_round :: "real \<Rightarrow> real" where
  "f64_round x = (if x = 0 then 0 else of_int (round_half_even (x / f64_ulp x)) * f64_ulp x)"

definition f64 :: "real \<Rightarrow> fl" where
  "f64 x = (let y = f64_round x in if 2 ^ 1024 \<le> \<bar>y\<bar> then inf_of_sign y else Fin y)"

fun fl_round :: "fl \<Rightarrow> fl" where
  "fl_round (Fin a) = f64 a"
| "fl_round x = x"

definition fmul64 :: "fl \<Rightarrow> fl \<Rightarrow> fl" where
  "fmul64 a b = fl_round (fmul a b)"

definition fdiv64 :: "fl \<Rightarrow> fl \<Rightarrow> fl" where
  "fdiv64 a b = fl_round (fdiv a b)"

section \<open>pandas Series operations on a price series\<close>

text \<open>
  A price series (\<open>closes\<close>) is the list of its values in time order; the timestamps play
  no part in the computation.

  \<open>Series.pct_change()\<close> is \<open>data / data.shift(1) - 1\<close>.  pandas before 3.0 first
  forward-fills missing values (\<open>fill_method='pad'\<close>), pandas 3.0 does not; the flag
  \<open>pad\<close> selects the behaviour, and every result below holds for both.
\<close>

fun ffill_from :: "fl \<Rightarrow> fl list \<Rightarrow> fl list" where
  "ffill_from prev [] = []"
| "ffill_from prev (x # xs) =
     (if isnan x then prev # ffill_from prev xs else x # ffill_from x xs)"

definition ffill :: "fl list \<Rightarrow> fl list" where
  "ffill xs = ffill_from NaN xs"

definition shift1 :: "fl list \<Rightarrow> fl list" where
  "shift1 xs = (if xs = [] then [] else NaN # butlast xs)"

definition pct_change :: "bool \<Rightarrow> fl list \<Rightarrow> fl list" where
  "pct_change pad xs =
     (let data = (if pad then ffill xs else xs)
      in map (\<lambda>(d, s). fsub (fdiv d s) (Fin 1)) (zip data (shift1 data)))"

definition dropna :: "fl list \<Rightarrow> fl list" where
  "dropna xs = filter (\<lambda>x. \<not> isnan x) xs"

text \<open>\<open>Series.cumprod()\<close> skips NaN entries: they stay NaN and do not enter the product.\<close>

fun cumprod_from :: "fl \<Rightarrow> fl list \<Rightarrow> fl list" where
  "cumprod_from acc [] = []"
| "cumprod_from acc (x # xs) =
     (if isnan x then NaN # cumprod_from acc xs
      else fmul acc x # cumprod_from (fmul acc x) xs)"

definition cumprod :: "fl list \<Rightarrow> fl list" where
  "cumprod xs = cumprod_from (Fin 1) xs"

text \<open>
  The slice \<open>closes[-m:]\<close> for an integer \<open>m\<close>: a positive \<open>m\<close> counts from the end,
  and \<open>-0\<close> is \<open>0\<close>, the whole series.
\<close>

definition slice_from_neg :: "int \<Rightarrow> 'a list \<Rightarrow> 'a list" where
  "slice_from_neg m xs =
     (let n = int (length xs);
          start = (if m > 0 then max 0 (n - m) else min (- m) n)
      in drop (nat start) xs)"

text \<open>The slice \<open>closes[:-k]\<close> for a positive \<open>k\<close>: all but the last \<open>k\<close> values.\<close>

definition slice_to_neg :: "nat \<Rightarrow> 'a list \<Rightarrow> 'a list" where
  "slice_to_neg k xs = take (length xs - k) xs"

section \<open>The scoring functions\<close>

definition quarters_perf :: "bool \<Rightarrow> fl list \<Rightarrow> int \<Rightarrow> fl" where
  "quarters_perf pad closes n =
     (let days = n * 63;
          available_data = slice_from_neg (min (int (length closes)) days) closes
      in if length available_data < 1 then NaN
         else if length available_data = 1 then Fin 0
         else
           let pct = dropna (pct_change pad available_data)
           in if pct \<noteq> [] then fsub (last (cumprod (map (\<lambda>c. fadd c (Fin 1)) pct))) (Fin 1)
              else NaN)"

definition base_weights :: "real list" where
  "base_weights = [4 / 10, 2 / 10, 2 / 10, 2 / 10]"

definition py_sum :: "fl list \<Rightarrow> fl" where
  "py_sum xs = foldl fadd (Fin 0) xs"

definition strength :: "bool \<Rightarrow> fl list \<Rightarrow> fl" where
  "strength pad closes =
     (let perfs = map (quarters_perf pad closes) [1, 2, 3, 4];
          valid_perfs = filter (\<lambda>p. \<not> isnan p) perfs
      in if valid_perfs = [] then NaN
         else
           let weights = take (length valid_perfs) base_weights;
               total_weight = sum_list weights;
               weights' = (if total_weight > 0 then map (\<lambda>w. w / total_weight) weights
                           else weights)
           in py_sum (map (\<lambda>(w, p). fmul (Fin w) p) (zip weights' valid_perfs)))"

definition relative_strength :: "bool \<Rightarrow> fl list \<Rightarrow> fl list \<Rightarrow> fl" where
  "relative_strength pad closes closes_ref =
     (let rs_stock = strength pad closes;
          rs_ref = strength pad closes_ref
      in if isnan rs_stock \<or> isnan rs_ref then NaN
         else fmul (fdiv (fadd (Fin 1) rs_stock) (fadd (Fin 1) rs_ref)) (Fin 100))"

section \<open>The performance window as the specification words it\<close>

text \<open>
  The per-step percentage changes of a window are \<open>x\<^sub>i / x\<^sub>i\<^sub>-\<^sub>1 - 1\<close>; the specification
  compounds all of them, \<open>\<Prod>(1 + pct_change\<^sub>i) - 1\<close>, over the trailing
  \<open>min(len(series), 63 * n)\<close> observations.  \<open>quarters_perf_spec\<close> follows these words; it
  is compared with \<open>quarters_perf\<close> below.
\<close>

definition step_changes :: "fl list \<Rightarrow> fl list" where
  "step_changes w = map (\<lambda>(p, c). fsub (fdiv c p) (Fin 1)) (zip w (tl w))"

definition compound :: "fl list \<Rightarrow> fl" where
  "compound cs = fsub (foldl fmul (Fin 1) (map (\<lambda>c. fadd c (Fin 1)) cs)) (Fin 1)"

definition trailing :: "nat \<Rightarrow> 'a list \<Rightarrow> 'a list" where
  "trailing k xs = drop (length xs - k) xs"

definition quarters_perf_spec :: "fl list \<Rightarrow> nat \<Rightarrow> fl" where
  "quarters_perf_spec closes n =
     (let w = trailing (min (length closes) (63 * n)) closes
      in if w = [] then NaN else if length w = 1 then Fin 0
         else compound (step_changes w))"



section \<open>The strength score as the specification words it\<close>

text \<open>
  The specification pairs the base weights with the four figures, drops every pair whose
  figure is undefined, renormalizes the remaining weights to sum to 1 and returns the
  weighted sum.  \<open>strength_spec\<close> follows these words.  \<open>gap_series\<close> is a series of 127
  closes with a run of 62 missing values before the last close; \<open>wipeout_series\<close> is a
  series of 64 finite closes, a close of 1 followed by 63 closes of 0.
\<close>

definition strength_spec :: "bool \<Rightarrow> fl list \<Rightarrow> fl" where
  "strength_spec pad closes =
     (let pairs = zip base_weights (map (quarters_perf pad closes) [1, 2, 3, 4]);
          kept = filter (\<lambda>(w, p). \<not> isnan p) pairs
      in if kept = [] then NaN
         else
           let total = sum_list (map fst kept)
           in py_sum (map (\<lambda>(w, p). fmul (Fin (w / total)) p) kept))"


definition gap_series :: "fl list" where
  "gap_series = Fin 4 # replicate 63 (Fin 2) @ replicate 62 NaN @ [Fin 2]"

section \<open>The universe ranker\<close>

text \<open>
  A pandas Series is the list of its (label, value) pairs in index order.  The column
  handed to \<open>calculate_rs_percentile\<close> has unique labels.  The result is a float Series
  holding the assigned integers, NaN elsewhere: an entry is \<open>Some p\<close> or \<open>None\<close>.

  \<open>rank(method="min")\<close> sorts the values and gives every member of a group of ties the
  1-based position of the group's first member.  \<open>Series.max()\<close> skips NaN.
  The ranks are counts, which binary64 holds exactly (below \<open>2 ^ 53\<close>); the division by
  the highest rank and the multiplication by 99 are rounded to binary64.
  \<open>round()\<close> rounds half to even.  \<open>astype(int)\<close> raises on a non-finite value.
  \<open>sys.exit(1)\<close> raises \<open>SystemExit\<close>; a failing read of the price store raises
  \<open>ReadError\<close>.
\<close>

datatype exn = IntCastingNaNError | ReadError | SystemExit int

fun fl_lt :: "fl \<Rightarrow> fl \<Rightarrow> bool" where
  "fl_lt (Fin a) (Fin b) = (a < b)"
| "fl_lt NaN _ = False"
| "fl_lt _ NaN = False"
| "fl_lt PInf _ = False"
| "fl_lt _ NInf = False"
| "fl_lt _ _ = True"

fun fkey :: "fl \<Rightarrow> int \<times> real" where
  "fkey NInf = (- 1, 0)"
| "fkey (Fin a) = (0, a)"
| "fkey PInf = (1, 0)"
| "fkey NaN = (2, 0)"

definition first_index :: "'a list \<Rightarrow> 'a \<Rightarrow> nat" where
  "first_index ys v = length (takeWhile (\<lambda>y. y \<noteq> v) ys)"

definition dropna_s :: "('k \<times> fl) list \<Rightarrow> ('k \<times> fl) list" where
  "dropna_s s = filter (\<lambda>(k, v). \<not> isnan v) s"

definition rank_min :: "('k \<times> fl) list \<Rightarrow> ('k \<times> fl) list" where
  "rank_min s =
     (let sorted_vals = sort_key fkey (dropna (map snd s))
      in map (\<lambda>(k, v). (k, if isnan v then NaN
                             else Fin (real (first_index sorted_vals v) + 1))) s)"

definition fmax :: "fl \<Rightarrow> fl \<Rightarrow> fl" where
  "fmax a b = (if fl_lt a b then b else a)"

definition series_max :: "('k \<times> fl) list \<Rightarrow> fl" where
  "series_max s = (case dropna (map snd s) of [] \<Rightarrow> NaN | v # vs \<Rightarrow> foldl fmax v vs)"

fun fround :: "fl \<Rightarrow> fl" where
  "fround (Fin a) = Fin (of_int (round_half_even a))"
| "fround x = x"

definition trunc_int :: "real \<Rightarrow> int" where
  "trunc_int a = (if 0 \<le> a then \<lfloor>a\<rfloor> else \<lceil>a\<rceil>)"

fun astype_int :: "('k \<times> fl) list \<Rightarrow> exn + ('k \<times> int) list" where
  "astype_int [] = Inr []"
| "astype_int ((k, Fin a) # s) =
     (case astype_int s of Inl e \<Rightarrow> Inl e | Inr r \<Rightarrow> Inr ((k, trunc_int a) # r))"
| "astype_int ((k, _) # s) = Inl IntCastingNaNError"

definition calculate_rs_percentile :: "('k \<times> fl) list \<Rightarrow> exn + ('k \<times> int option) list" where
  "calculate_rs_percentile rs_values =
     (let valid_values = dropna_s rs_values
      in if valid_values = [] then Inr (map (\<lambda>(k, v). (k, None)) rs_values)
         else
           let ranks = map (\<lambda>(k, r). (k, fsub r (Fin 1))) (rank_min valid_values);
               mx = series_max ranks;
               scaled = map (\<lambda>(k, r). (k, fround (fmul64 (fdiv64 r mx) (Fin 99)))) ranks
           in case astype_int scaled of
                Inl e \<Rightarrow> Inl e
              | Inr percentiles \<Rightarrow> Inr (map (\<lambda>(k, v). (k, map_of percentiles k)) rs_values))"

text \<open>
  The notions of the specification: the defined values of a column, the 0-based
  competition rank of a value (the number of strictly smaller defined values), the
  highest rank observed, and the scaled percentile \<open>round(rank / max_rank * 99)\<close>, the
  quotient and the product each rounded to binary64.
\<close>

definition defined_values :: "('k \<times> fl) list \<Rightarrow> fl list" where
  "defined_values s = dropna (map snd s)"

definition competition_rank :: "fl list \<Rightarrow> fl \<Rightarrow> nat" where
  "competition_rank vals v = length (filter (\<lambda>u. fl_lt u v) vals)"

definition max_rank :: "fl list \<Rightarrow> nat" where
  "max_rank vals = Max (set (map (competition_rank vals) vals))"

definition percentile_of :: "fl list \<Rightarrow> fl \<Rightarrow> int" where
  "percentile_of vals v =
     round_half_even
       (f64_round (f64_round (real (competition_rank vals v) / real (max_rank vals)) * 99))"



section \<open>The scoring pipeline\<close>

text \<open>
  The model of \<open>main\<close> runs from the loaded price store to the IPO flag (lines 133 to
  256).  The store \<open>lib\<close> maps a ticker to its closes, \<open>None\<close> when \<open>lib.read\<close> raises.
  A tuple of \<open>rs_results\<close> is a record \<open>rs_result\<close>; a row of \<open>df_stocks\<close> adds the four
  percentiles and the IPO flag.  The pre-check loop and the metadata merge only log and
  add columns that no figure depends on; they are left out.  The rows stay in loop order:
  the sort on line 252 permutes the rows and leaves their contents unchanged.  The four
  percentile columns are computed on the default integer index of the frame.

  The result \<open>Inr rows\<close> is the frame as it stands after line 256, with every IPO flag
  computed.  The lines after it (the \<open>Type\<close> column of the metadata on line 258 and the
  output files) are outside the model: \<open>Inr\<close> does not say that the run writes its
  output, \<open>Inl\<close> says that it has stopped by line 256.
\<close>

record 'k rs_result =
  ticker :: 'k
  rs :: fl
  rs_1m :: fl
  rs_3m :: fl
  rs_6m :: fl

record 'k stock_row = "'k rs_result" +
  rs_percentile :: "int option"
  rs_1m_percentile :: "int option"
  rs_3m_percentile :: "int option"
  rs_6m_percentile :: "int option"
  ipo :: bool

definition nan_row :: "'k \<Rightarrow> 'k rs_result" where
  "nan_row t = \<lparr>ticker = t, rs = NaN, rs_1m = NaN, rs_3m = NaN, rs_6m = NaN\<rparr>"

definition process_ticker :: "bool \<Rightarrow> ('k \<Rightarrow> fl list option) \<Rightarrow> fl list \<Rightarrow> 'k \<Rightarrow> 'k rs_result" where
  "process_ticker pad lib ref_closes t =
     (case lib t of
        None \<Rightarrow> nan_row t
      | Some closes \<Rightarrow>
          if length closes < 2 then nan_row t
          else \<lparr>ticker = t,
                rs = relative_strength pad closes ref_closes,
                rs_1m = (if length closes > 20
                         then relative_strength pad (slice_to_neg 20 closes) (slice_to_neg 20 ref_closes)
                         else NaN),
                rs_3m = (if length closes > 60
                         then relative_strength pad (slice_to_neg 60 closes) (slice_to_neg 60 ref_closes)
                         else NaN),
                rs_6m = (if length closes > 120
                         then relative_strength pad (slice_to_neg 120 closes) (slice_to_neg 120 ref_closes)
                         else NaN)\<rparr>)"

definition rs_loop :: "bool \<Rightarrow> ('k \<Rightarrow> fl list option) \<Rightarrow> fl list \<Rightarrow> 'k list \<Rightarrow> 'k \<Rightarrow> 'k rs_result list" where
  "rs_loop pad lib ref_closes tickers reference_ticker =
     map (process_ticker pad lib ref_closes) (filter (\<lambda>t. t \<noteq> reference_ticker) tickers)"

definition column :: "('r \<Rightarrow> fl) \<Rightarrow> 'r list \<Rightarrow> (nat \<times> fl) list" where
  "column f rows = zip [0..<length rows] (map f rows)"

fun ipo_flags :: "('k \<Rightarrow> fl list option) \<Rightarrow> 'k list \<Rightarrow> exn + bool list" where
  "ipo_flags lib [] = Inr []"
| "ipo_flags lib (t # ts) =
     (case lib t of
        None \<Rightarrow> Inl ReadError
      | Some closes \<Rightarrow>
          (case ipo_flags lib ts of
             Inl e \<Rightarrow> Inl e
           | Inr flags \<Rightarrow> Inr ((length closes < 20) # flags)))"

definition build_rows ::
  "'k rs_result list \<Rightarrow> int option list \<Rightarrow> int option list \<Rightarrow> int option list \<Rightarrow>
   int option list \<Rightarrow> bool list \<Rightarrow> 'k stock_row list" where
  "build_rows rows p0 p1 p2 p3 flags =
     map (\<lambda>(r, a, b, c, d, f).
            \<lparr>ticker = ticker r, rs = rs r, rs_1m = rs_1m r, rs_3m = rs_3m r, rs_6m = rs_6m r,
             rs_percentile = a, rs_1m_percentile = b, rs_3m_percentile = c,
             rs_6m_percentile = d, ipo = f\<rparr>)
         (zip rows (zip p0 (zip p1 (zip p2 (zip p3 flags)))))"

definition main :: "bool \<Rightarrow> ('k \<Rightarrow> fl list option) \<Rightarrow> 'k list \<Rightarrow> 'k \<Rightarrow> exn + 'k stock_row list" where
  "main pad lib tickers reference_ticker =
     (if reference_ticker \<notin> set tickers then Inl (SystemExit 1)
      else case lib reference_ticker of
        None \<Rightarrow> Inl ReadError
      | Some ref_closes \<Rightarrow>
          if length ref_closes < 20 then Inl (SystemExit 1)
          else
            let rs_results = rs_loop pad lib ref_closes tickers reference_ticker
            in case calculate_rs_percentile (column rs rs_results) of Inl e \<Rightarrow> Inl e | Inr p0 \<Rightarrow>
               case calculate_rs_percentile (column rs_1m rs_results) of Inl e \<Rightarrow> Inl e | Inr p1 \<Rightarrow>
               case calculate_rs_percentile (column rs_3m rs_results) of Inl e \<Rightarrow> Inl e | Inr p2 \<Rightarrow>
               case calculate_rs_percentile (column rs_6m rs_results) of Inl e \<Rightarrow> Inl e | Inr p3 \<Rightarrow>
               if rs_results = [] then Inl (SystemExit 1)
               else case ipo_flags lib (map ticker rs_results) of
                      Inl e \<Rightarrow> Inl e
                    | Inr flags \<Rightarrow>
                        Inr (build_rows rs_results (map snd p0) (map snd p1) (map snd p2)
                               (map snd p3) flags))"

text \<open>
  A small price store for the examples below: a flat benchmark \<open>SPY\<close> of 25 closes, the
  tickers \<open>A\<close> and \<open>B\<close> with two closes, \<open>N\<close> with 22 closes, \<open>S\<close> with a single
  close, and every other ticker unreadable.
\<close>

definition demo_store :: "string \<Rightarrow> fl list option" where
  "demo_store t =
     (if t = ''SPY'' then Some (replicate 25 (Fin 100))
      else if t = ''A'' then Some [Fin 1, Fin 2]
      else if t = ''B'' then Some [Fin 1, Fin 3]
      else if t = ''N'' then Some (replicate 21 (Fin 1) @ [Fin 2])
      else if t = ''S'' then Some [Fin 7]
      else None)"

section \<open>Properties of the comparator\<close>

lemmas eval_defs =
  relative_strength_def strength_def quarters_perf_def slice_from_neg_def slice_to_neg_def
  pct_change_def ffill_def shift1_def dropna_def cumprod_def fsub_def base_weights_def
  py_sum_def inf_of_sign_def

lemma rs_formula_self:
  "\<not> isnan (fmul (fdiv (fadd (Fin 1) s) (fadd (Fin 1) s)) (Fin 100)) \<Longrightarrow>
   fmul (fdiv (fadd (Fin 1) s) (fadd (Fin 1) s)) (Fin 100) = Fin 100"
  by (cases s) (auto simp: inf_of_sign_def split: if_splits)


text \<open>
  C8.  A series compared against itself as its own benchmark: whenever
  \<open>relative_strength\<close> returns a defined value (not NaN), that value is exactly 100.
\<close>

theorem relative_strength_self:
  "\<not> isnan (relative_strength pad X X) \<Longrightarrow> relative_strength pad X X = Fin 100"
  unfolding relative_strength_def Let_def
  by (cases "isnan (strength pad X)") (simp_all add: rs_formula_self)

theorem relative_strength_self_witness:
  "\<not> isnan (relative_strength True [Fin 10, Fin 11] [Fin 10, Fin 11]) \<and>
   relative_strength True [Fin 10, Fin 11] [Fin 10, Fin 11] = Fin 100"
proof -
  have h: "\<not> isnan (relative_strength True [Fin 10, Fin 11] [Fin 10, Fin 11])"
    by (simp add: eval_defs)
  from relative_strength_self [OF h] h show ?thesis by simp
qed




section \<open>Properties of the performance window\<close>

lemma slice_trailing:
  "1 \<le> n \<Longrightarrow> slice_from_neg (min (int (length xs)) (n * 63)) xs
     = trailing (min (length xs) (63 * nat n)) xs"
  by (cases "xs = []") (auto simp: slice_from_neg_def trailing_def Let_def min_def max_def nat_diff_distrib intro!: arg_cong2[where f=drop])

lemma length_cumprod_from: "length (cumprod_from acc xs) = length xs"
  by (induction xs arbitrary: acc) auto

lemma cumprod_from_Nil: "cumprod_from acc xs = [] \<longleftrightarrow> xs = []"
  using length_cumprod_from[of acc xs] by (metis length_0_conv)

lemma last_cumprod_from:
  "xs \<noteq> [] \<Longrightarrow> \<forall>x\<in>set xs. \<not> isnan x \<Longrightarrow> last (cumprod_from acc xs) = foldl fmul acc xs"
proof (induction xs arbitrary: acc)
  case Nil then show ?case by simp
next
  case (Cons x xs)
  then show ?case by (cases "xs = []") (auto simp: cumprod_from_Nil)
qed

lemma isnan_fadd1: "isnan (fadd c (Fin 1)) = isnan c"
  by (cases c) auto

lemma quarters_perf_compound:
  "pct \<noteq> [] \<Longrightarrow> \<forall>c\<in>set pct. \<not> isnan c \<Longrightarrow>
   fsub (last (cumprod (map (\<lambda>c. fadd c (Fin 1)) pct))) (Fin 1) = compound pct"
  unfolding cumprod_def compound_def
  by (subst last_cumprod_from) (auto simp: isnan_fadd1)

lemma zip_tl_butlast:
  "map f (zip (tl w) (butlast w)) = map (\<lambda>(p, c). f (c, p)) (zip w (tl w))"
proof (induction w)
  case Nil then show ?case by simp
next
  case (Cons a w)
  then show ?case by (cases w) auto
qed

lemma pct_change_nopad: "w \<noteq> [] \<Longrightarrow> pct_change False w = NaN # step_changes w"
proof -
  assume "w \<noteq> []"
  then obtain a w' where w: "w = a # w'" by (cases w) auto
  have "map (\<lambda>(d, s). fsub (fdiv d s) (Fin 1)) (zip w' (butlast (a # w'))) = step_changes (a # w')"
    unfolding step_changes_def using zip_tl_butlast[of "\<lambda>(d, s). fsub (fdiv d s) (Fin 1)" "a # w'"] by simp
  then show ?thesis unfolding w pct_change_def shift1_def Let_def
    by (cases a) (simp_all add: fsub_def)
qed

lemma ffill_from_id: "\<forall>x\<in>set xs. \<not> isnan x \<Longrightarrow> ffill_from p xs = xs"
  by (induction xs arbitrary: p) auto

lemma pct_change_pad_id: "\<forall>x\<in>set xs. \<not> isnan x \<Longrightarrow> pct_change pad xs = pct_change False xs"
  by (simp add: pct_change_def ffill_def ffill_from_id)

lemma isnan_step: "isnan (fsub (fdiv c p) (Fin 1)) = isnan (fdiv c p)"
  by (cases "fdiv c p") (auto simp: fsub_def)

lemma fdiv_nan_left: "isnan c \<Longrightarrow> isnan (fdiv c p)"
  by (cases c; cases p) auto
lemma fdiv_nan_right: "isnan p \<Longrightarrow> isnan (fdiv c p)"
  by (cases c; cases p) auto

lemma steps_defined_no_nan:
  "2 \<le> length w \<Longrightarrow> \<forall>c\<in>set (step_changes w). \<not> isnan c \<Longrightarrow> \<forall>x\<in>set w. \<not> isnan x"
proof (induction w)
  case Nil then show ?case by simp
next
  case (Cons a w)
  then obtain b w' where w: "w = b # w'" by (cases w) auto
  have ab: "\<not> isnan (fdiv b a)" using Cons.prems(2) unfolding w step_changes_def by (simp add: isnan_step)
  then have a: "\<not> isnan a" and b: "\<not> isnan b" using fdiv_nan_left fdiv_nan_right by blast+
  show ?case
  proof (cases "2 \<le> length w")
    case True
    with Cons show ?thesis using a unfolding w step_changes_def by auto
  next
    case False
    then have "w' = []" using w by (cases w') auto
    then show ?thesis using a b w by simp
  qed
qed

lemma dropna_nopad_steps:
  "w \<noteq> [] \<Longrightarrow> \<forall>c\<in>set (step_changes w). \<not> isnan c \<Longrightarrow> dropna (pct_change False w) = step_changes w"
  by (simp add: pct_change_nopad dropna_def)

lemma length_step_changes: "length (step_changes w) = length w - 1"
  by (simp add: step_changes_def)

lemma quarters_perf_unfold:
  "1 \<le> n \<Longrightarrow>
   quarters_perf pad closes n =
     (let w = trailing (min (length closes) (63 * nat n)) closes;
          defined = dropna (pct_change pad w)
      in if w = [] then NaN else if length w = 1 then Fin 0
         else if defined = [] then NaN else compound defined)"
proof -
  assume n: "1 \<le> n"
  let ?w = "trailing (min (length closes) (63 * nat n)) closes"
  let ?d = "dropna (pct_change pad ?w)"
  have nn: "\<forall>c\<in>set ?d. \<not> isnan c" by (simp add: dropna_def)
  have "quarters_perf pad closes n =
      (if length ?w < 1 then NaN else if length ?w = 1 then Fin 0
       else if ?d \<noteq> [] then fsub (last (cumprod (map (\<lambda>c. fadd c (Fin 1)) ?d))) (Fin 1) else NaN)"
    unfolding quarters_perf_def Let_def slice_trailing[OF n] by (simp add: mult.commute)
  also have "\<dots> = (if ?w = [] then NaN else if length ?w = 1 then Fin 0
         else if ?d = [] then NaN else compound ?d)"
    using quarters_perf_compound[OF _ nn] by (cases "?w = []") auto
  finally show ?thesis by (simp add: Let_def)
qed

lemma quarters_perf_all_steps:
  assumes n: "1 \<le> n"
    and st: "\<forall>c\<in>set (step_changes (trailing (min (length closes) (63 * nat n)) closes)). \<not> isnan c"
  shows "quarters_perf pad closes n = quarters_perf_spec closes (nat n)"
proof -
  let ?w = "trailing (min (length closes) (63 * nat n)) closes"
  show ?thesis
  proof (cases "2 \<le> length ?w")
    case False
    then have "length ?w = 0 \<or> length ?w = 1" by linarith
    then have "?w = [] \<or> length ?w = 1" by auto
    then show ?thesis
      unfolding quarters_perf_unfold[OF n] quarters_perf_spec_def Let_def by auto
  next
    case True
    then have ne: "?w \<noteq> []" by auto
    from steps_defined_no_nan[OF True st] have "pct_change pad ?w = pct_change False ?w"
      by (rule pct_change_pad_id)
    then have d: "dropna (pct_change pad ?w) = step_changes ?w"
      using dropna_nopad_steps[OF ne st] by simp
    have "length (step_changes ?w) \<noteq> 0" using length_step_changes[of ?w] True by simp
    then have "step_changes ?w \<noteq> []" by simp
    then show ?thesis using True ne
      unfolding quarters_perf_unfold[OF n] quarters_perf_spec_def Let_def d by auto
  qed
qed

text \<open>
  C2, amended.  For \<open>n \<ge> 1\<close>, \<open>quarters_perf\<close> works on the trailing
  \<open>min(len(series), 63 * n)\<close> observations and returns: undefined for an empty series; exactly
  0 for a series of one observation; otherwise the compounded return over those per-step
  changes of \<open>pct_change\<close> that are defined (NaN changes are dropped), and undefined when
  none is defined.  Whenever every per-step change of the window is defined this is the
  product over all steps, \<open>\<Prod>(1 + pct_change\<^sub>i) - 1\<close>.
\<close>

theorem quarters_perf_window:
  "1 \<le> n \<Longrightarrow>
   quarters_perf pad closes n =
     (let w = trailing (min (length closes) (63 * nat n)) closes;
          defined = dropna (pct_change pad w)
      in if w = [] then NaN else if length w = 1 then Fin 0
         else if defined = [] then NaN else compound defined)
   \<and> ((\<forall>c\<in>set (step_changes (trailing (min (length closes) (63 * nat n)) closes)). \<not> isnan c) \<longrightarrow>
        quarters_perf pad closes n = quarters_perf_spec closes (nat n))"
  using quarters_perf_unfold quarters_perf_all_steps by blast

text \<open>
  C2, as stated, fails: on a window with at least two observations \<open>quarters_perf\<close> does
  not compound all per-step changes.  The window \<open>[1, 0, 0]\<close> has the changes \<open>-1\<close> and
  \<open>0/0\<close> (undefined), so the compounded product of the specification is undefined, while
  the function drops the undefined change and returns \<open>-1\<close>.
\<close>

theorem quarters_perf_counterexample:
  "quarters_perf True [Fin 1, Fin 0, Fin 0] 1 = Fin (- 1) \<and>
   quarters_perf False [Fin 1, Fin 0, Fin 0] 1 = Fin (- 1) \<and>
   quarters_perf_spec [Fin 1, Fin 0, Fin 0] 1 = NaN"
  by (simp add: eval_defs quarters_perf_spec_def trailing_def step_changes_def compound_def)

theorem quarters_perf_window_witness:
  "(1::int) \<le> 2 \<and> quarters_perf True [Fin 2, Fin 3, Fin 6] 2 = Fin 2 \<and>
   quarters_perf_spec [Fin 2, Fin 3, Fin 6] 2 = Fin 2 \<and>
   quarters_perf True [Fin 5] 2 = Fin 0 \<and> quarters_perf True [] 2 = NaN"
proof -
  have s: "step_changes (trailing (min (length [Fin 2, Fin 3, Fin 6]) (63 * nat 2)) [Fin 2, Fin 3, Fin 6])
      = [Fin (1 / 2), Fin 1]"
    by (simp add: trailing_def step_changes_def fsub_def)
  have c: "quarters_perf_spec [Fin 2, Fin 3, Fin 6] 2 = Fin 2"
    by (simp add: quarters_perf_spec_def trailing_def step_changes_def compound_def fsub_def)
  from quarters_perf_window [of 2 True "[Fin 2, Fin 3, Fin 6]", THEN conjunct2] s
  have "quarters_perf True [Fin 2, Fin 3, Fin 6] 2 = quarters_perf_spec [Fin 2, Fin 3, Fin 6] (nat 2)"
    by simp
  with c have a: "quarters_perf True [Fin 2, Fin 3, Fin 6] 2 = Fin 2" by simp
  from quarters_perf_window [of 2 True "[Fin 5]", THEN conjunct1]
  have b: "quarters_perf True [Fin 5] 2 = Fin 0" by (simp add: trailing_def)
  from quarters_perf_window [of 2 True "[]", THEN conjunct1]
  have d: "quarters_perf True [] 2 = NaN" by (simp add: trailing_def)
  from a b c d show ?thesis by simp
qed

section \<open>Properties of the strength score\<close>








lemma strength_empty: "strength pad [] = NaN"
  by (simp add: eval_defs)





lemma gap_series_perfs:
  "quarters_perf pad gap_series 1 = NaN"
  "quarters_perf pad gap_series 2 = Fin 0"
  "quarters_perf pad gap_series 3 = Fin (- 1 / 2)"
  "quarters_perf pad gap_series 4 = Fin (- 1 / 2)"
  unfolding gap_series_def by (cases pad; simp add: eval_defs eval_nat_numeral)+

text \<open>
  C3 does not hold of the code.  \<open>strength\<close> filters the undefined figures but takes the
  first \<open>len(valid_perfs)\<close> base weights instead of the weights paired with the remaining
  figures.  On \<open>gap_series\<close> the one-quarter figure is undefined and the other three are
  \<open>0\<close>, \<open>-1/2\<close>, \<open>-1/2\<close>: the code weighs them \<open>0.4, 0.2, 0.2\<close> (renormalized) and
  returns \<open>-1/4\<close>, where dropping the pair with its weight gives \<open>-1/3\<close>.
\<close>

theorem strength_misaligned_weights:
  "length gap_series = 127 \<and>
   map (quarters_perf True gap_series) [1, 2, 3, 4] = [NaN, Fin 0, Fin (- 1 / 2), Fin (- 1 / 2)] \<and>
   map (quarters_perf False gap_series) [1, 2, 3, 4] = [NaN, Fin 0, Fin (- 1 / 2), Fin (- 1 / 2)] \<and>
   strength True gap_series = Fin (- 1 / 4) \<and> strength False gap_series = Fin (- 1 / 4) \<and>
   strength_spec True gap_series = Fin (- 1 / 3) \<and> strength_spec False gap_series = Fin (- 1 / 3)"
  by (simp add: gap_series_perfs strength_def strength_spec_def base_weights_def py_sum_def)
    (simp add: gap_series_def)

section \<open>Properties of binary64 rounding\<close>

lemma f64_exponent_eq:
  assumes "2 powi e \<le> \<bar>x\<bar>" "\<bar>x\<bar> < 2 powi (e + 1)" "- 1022 \<le> e"
  shows "f64_exponent x = e"
proof -
  have p: "(0::real) < 2 powi e" by simp
  have pos: "0 < \<bar>x\<bar>" using assms(1) p by linarith
  have a: "2 powr real_of_int e = (2::real) powi e" by (rule powr_real_of_int') simp_all
  have b: "2 powr real_of_int (e + 1) = (2::real) powi (e + 1)" by (rule powr_real_of_int') simp_all
  have "2 powr real_of_int e \<le> \<bar>x\<bar> \<and> \<bar>x\<bar> < 2 powr real_of_int (e + 1)"
    unfolding a b using assms(1,2) by simp
  then have "\<lfloor>log 2 \<bar>x\<bar>\<rfloor> = e"
    using floor_log_eq_powr_iff[OF pos, of 2 e] by simp
  then show ?thesis using assms(3) by (simp add: f64_exponent_def)
qed

lemma f64_exponent_le:
  assumes "x \<noteq> 0" "\<bar>x\<bar> < 2 powi (e + 1)" "- 1022 \<le> e"
  shows "f64_exponent x \<le> e"
proof -
  have pos: "0 < \<bar>x\<bar>" using assms(1) by simp
  define k where "k = \<lfloor>log 2 \<bar>x\<bar>\<rfloor>"
  have "2 powr real_of_int k \<le> \<bar>x\<bar>"
    using floor_log_eq_powr_iff[OF pos, of 2 k] k_def by simp
  moreover have "2 powr real_of_int k = (2::real) powi k" by (rule powr_real_of_int') simp_all
  ultimately have "(2::real) powi k < 2 powi (e + 1)" using assms(2) by linarith
  then have "k < e + 1" by (smt (verit) power_int_increasing)
  then show ?thesis using assms(3) by (simp add: f64_exponent_def k_def)
qed

lemma f64_ulp_pos: "0 < f64_ulp x"
  by (simp add: f64_ulp_def)

lemma f64_ulp_le:
  assumes "x \<noteq> 0" "\<bar>x\<bar> < 2 powi (e + 1)" "- 1022 \<le> e"
  shows "f64_ulp x \<le> 2 powi (e - 52)"
  unfolding f64_ulp_def using f64_exponent_le[OF assms] by (intro power_int_increasing) simp_all

lemma round_half_even_err: "\<bar>of_int (round_half_even t) - t\<bar> \<le> 1 / 2"
  unfolding round_half_even_def Let_def by (simp; linarith)

lemma round_half_even_nonneg: "0 \<le> t \<Longrightarrow> 0 \<le> round_half_even t"
  unfolding round_half_even_def Let_def by (simp; linarith)

lemma f64_round_0: "f64_round 0 = 0"
  by (simp add: f64_round_def)

lemma f64_round_nonneg: "0 \<le> x \<Longrightarrow> 0 \<le> f64_round x"
  unfolding f64_round_def using f64_ulp_pos[of x] round_half_even_nonneg[of "x / f64_ulp x"]
  by simp

lemma f64_round_err: "\<bar>f64_round x - x\<bar> \<le> f64_ulp x / 2"
proof (cases "x = 0")
  case True
  then show ?thesis using f64_ulp_pos[of 0] by (simp add: f64_round_def)
next
  case False
  let ?u = "f64_ulp x"
  have u: "0 < ?u" by (rule f64_ulp_pos)
  have "f64_round x - x = (of_int (round_half_even (x / ?u)) - x / ?u) * ?u"
    using u False by (simp add: f64_round_def field_simps)
  then have "\<bar>f64_round x - x\<bar> = \<bar>of_int (round_half_even (x / ?u)) - x / ?u\<bar> * ?u"
    using u by (simp add: abs_mult)
  also have "\<dots> \<le> 1 / 2 * ?u"
    using round_half_even_err[of "x / ?u"] u by (intro mult_right_mono) simp_all
  finally show ?thesis by simp
qed

text \<open>
  The rounding of a given real is computed from its binade: for
  \<open>2 ^ e \<le> |x| < 2 ^ (e + 1)\<close> the spacing of the binary64 values is \<open>2 ^ (e - 52)\<close>.
\<close>

lemma f64_round_eval:
  assumes "2 powi e \<le> \<bar>x\<bar>" "\<bar>x\<bar> < 2 powi (e + 1)" "- 1022 \<le> e"
  shows "f64_round x = of_int (round_half_even (x / 2 powi (e - 52))) * 2 powi (e - 52)"
proof -
  have p: "(0::real) < 2 powi e" by simp
  have "x \<noteq> 0" using assms(1) p by linarith
  then show ?thesis unfolding f64_round_def f64_ulp_def f64_exponent_eq[OF assms] by simp
qed

lemma f64_round_1: "f64_round 1 = 1"
  by (subst f64_round_eval[of 0]) (simp_all add: round_half_even_def)

lemma f64_round_99: "f64_round 99 = 99"
  by (subst f64_round_eval[of 6]) (simp_all add: round_half_even_def)

lemma f64_Fin: "\<bar>f64_round x\<bar> < 2 ^ 1024 \<Longrightarrow> f64 x = Fin (f64_round x)"
  by (simp add: f64_def Let_def)

lemma f64_round_unit:
  assumes "0 \<le> x" "x \<le> 1"
  shows "0 \<le> f64_round x \<and> f64_round x \<le> 1 + 1 / 2 ^ 53"
proof (cases "x = 0")
  case True
  then show ?thesis by (simp add: f64_round_0)
next
  case False
  have "\<bar>x\<bar> < 2 powi (0 + 1)" using assms by simp
  from f64_ulp_le[OF False this] have "f64_ulp x \<le> 1 / 2 ^ 52" by simp
  then have "f64_round x \<le> x + 1 / 2 ^ 53" using f64_round_err[of x] by (simp; linarith)
  then show ?thesis using assms f64_round_nonneg[of x] by simp
qed

lemma f64_round_scaled:
  assumes "0 \<le> q" "q \<le> 1 + 1 / 2 ^ 53"
  shows "0 \<le> f64_round (q * 99) \<and> f64_round (q * 99) < 199 / 2"
proof (cases "q = 0")
  case True
  then show ?thesis by (simp add: f64_round_0)
next
  case False
  have le: "q * 99 \<le> 99 + 99 / 2 ^ 53" using assms(2) by simp
  then have "\<bar>q * 99\<bar> < 2 powi (6 + 1)" using assms(1) by simp
  moreover have "q * 99 \<noteq> 0" using False by simp
  ultimately have "f64_ulp (q * 99) \<le> 2 powi (6 - 52)" by (intro f64_ulp_le) simp_all
  then have "f64_ulp (q * 99) \<le> 1 / 2 ^ 46" by simp
  then have "f64_round (q * 99) \<le> q * 99 + 1 / 2 ^ 47"
    using f64_round_err[of "q * 99"] by (simp; linarith)
  then have "f64_round (q * 99) < 199 / 2" using le by simp
  moreover have "0 \<le> f64_round (q * 99)" using assms(1) by (intro f64_round_nonneg) simp
  ultimately show ?thesis by simp
qed

lemma f64_round_subnormal:
  assumes "x \<noteq> 0" "\<bar>x\<bar> < 2 powi (- 1022)"
  shows "f64_round x = of_int (round_half_even (x / 2 powi (- 1074))) * 2 powi (- 1074)"
proof -
  have "\<bar>x\<bar> < 2 powi (- 1022 + 1)"
    using assms(2) power_int_increasing[of "- 1022" "- 1021" "2::real"] by simp
  from f64_exponent_le[OF assms(1) this] have "f64_exponent x \<le> - 1022" by simp
  moreover have "- 1022 \<le> f64_exponent x" by (simp add: f64_exponent_def)
  ultimately have "f64_exponent x = - 1022" by simp
  then show ?thesis using assms(1) by (simp add: f64_round_def f64_ulp_def)
qed

text \<open>
  Finite non-zero operands do not make a finite non-zero quotient: in binary64 the
  ratio of \<open>2 ^ 600\<close> to \<open>2 ^ (-600)\<close> overflows to \<open>+inf\<close>, the inverse ratio underflows
  to 0, and the product of the two is NaN.
\<close>

lemma binary64_overflow:
  "fdiv64 (Fin (2 ^ 600)) (Fin (1 / 2 ^ 600)) = PInf"
  "fdiv64 (Fin (1 / 2 ^ 600)) (Fin (2 ^ 600)) = Fin 0"
  "fmul64 (fdiv64 (Fin (2 ^ 600)) (Fin (1 / 2 ^ 600))) (fdiv64 (Fin (1 / 2 ^ 600)) (Fin (2 ^ 600))) = NaN"
proof -
  have a: "f64_round (2 ^ 1200) = 2 ^ 1200"
    by (subst f64_round_eval[of 1200]) (simp_all add: round_half_even_def)
  have b: "f64_round (1 / 2 ^ 1200) = 0"
    by (subst f64_round_subnormal) (simp_all add: round_half_even_def)
  have fa: "f64 (2 ^ 1200) = PInf" unfolding f64_def a Let_def by (simp add: inf_of_sign_def)
  have fb: "f64 (1 / 2 ^ 1200) = Fin 0" unfolding f64_def b Let_def by simp
  have c: "fdiv (Fin (2 ^ 600)) (Fin (1 / 2 ^ 600)) = Fin (2 ^ 1200)"
    "fdiv (Fin (1 / 2 ^ 600)) (Fin (2 ^ 600)) = Fin (1 / 2 ^ 1200)"
    by simp_all
  show 1: "fdiv64 (Fin (2 ^ 600)) (Fin (1 / 2 ^ 600)) = PInf"
    by (simp only: fdiv64_def c fl_round.simps fa)
  show 2: "fdiv64 (Fin (1 / 2 ^ 600)) (Fin (2 ^ 600)) = Fin 0"
    by (simp only: fdiv64_def c fl_round.simps fb)
  show "fmul64 (fdiv64 (Fin (2 ^ 600)) (Fin (1 / 2 ^ 600))) (fdiv64 (Fin (1 / 2 ^ 600)) (Fin (2 ^ 600))) = NaN"
    unfolding 1 2 by (simp add: fmul64_def inf_of_sign_def)
qed

text \<open>
  The rounding is visible in the percentile: for rank 11 of a highest rank 18 the
  quotient rounds up, the product is \<open>60.50000000000001\<close> and the percentile is 61,
  where the exact value \<open>60.5\<close> rounds to the even 60; for rank 3 of a highest rank 22
  the product is \<open>13.499999999999998\<close> and the percentile is 13, where the exact value
  \<open>13.5\<close> rounds to the even 14.
\<close>

lemma f64_round_11_18:
  "round_half_even (f64_round (f64_round (11 / 18) * 99)) = 61"
  "round_half_even (11 / 18 * 99) = 60"
proof -
  have a: "f64_round (11 / 18) = 5504399544563940 / 2 ^ 53"
    by (subst f64_round_eval[of "- 1"]) (simp_all add: round_half_even_def)
  have b: "f64_round (5504399544563940 / 2 ^ 53 * 99) = 8514618045497345 / 2 ^ 47"
    by (subst f64_round_eval[of 5]) (simp_all add: round_half_even_def)
  show "round_half_even (f64_round (f64_round (11 / 18) * 99)) = 61"
    unfolding a b by (simp add: round_half_even_def)
  show "round_half_even (11 / 18 * 99) = 60" by (simp add: round_half_even_def)
qed

lemma f64_round_3_22:
  "round_half_even (f64_round (f64_round (3 / 22) * 99)) = 13"
  "round_half_even (3 / 22 * 99) = 14"
proof -
  have a: "f64_round (3 / 22) = 4913017775313268 / 2 ^ 55"
    by (subst f64_round_eval[of "- 3"]) (simp_all add: round_half_even_def)
  have b: "f64_round (4913017775313268 / 2 ^ 55 * 99) = 7599824371187711 / 2 ^ 49"
    by (subst f64_round_eval[of 3]) (simp_all add: round_half_even_def)
  show "round_half_even (f64_round (f64_round (3 / 22) * 99)) = 13"
    unfolding a b by (simp add: round_half_even_def)
  show "round_half_even (3 / 22 * 99) = 14" by (simp add: round_half_even_def)
qed

section \<open>Properties of the universe ranker\<close>

lemma inj_fkey: "fkey a = fkey b \<Longrightarrow> a = b"
  by (cases a; cases b) auto

lemma fl_lt_fkey: "\<not> isnan a \<Longrightarrow> \<not> isnan b \<Longrightarrow> fl_lt a b = (fkey a < fkey b)"
  by (cases a; cases b) auto

lemma sorted_takeWhile_filter:
  "sorted (map fkey ys) \<Longrightarrow> v \<in> set ys \<Longrightarrow>
   takeWhile (\<lambda>y. y \<noteq> v) ys = filter (\<lambda>y. fkey y < fkey v) ys"
proof (induction ys)
  case Nil
  then show ?case by simp
next
  case (Cons y ys)
  from Cons.prems(1) have le: "\<forall>z\<in>set ys. fkey y \<le> fkey z" and s: "sorted (map fkey ys)"
    by auto
  show ?case
  proof (cases "y = v")
    case True
    have "filter (\<lambda>z. fkey z < fkey v) ys = []"
      using le True by (auto simp: filter_empty_conv)
    then show ?thesis using True by simp
  next
    case False
    then have v: "v \<in> set ys" using Cons.prems(2) by simp
    then have "fkey y \<le> fkey v" using le by blast
    moreover have "fkey y \<noteq> fkey v" using False inj_fkey by blast
    ultimately have "fkey y < fkey v" by simp
    then show ?thesis using False Cons.IH[OF s v] by simp
  qed
qed

lemma length_filter_sort:
  "length (filter P (sort_key f xs)) = length (filter P xs)"
proof -
  have "mset (filter P (sort_key f xs)) = mset (filter P xs)" by simp
  then show ?thesis by (metis size_mset)
qed

lemma first_index_rank:
  assumes "\<forall>u\<in>set vals. \<not> isnan u" "v \<in> set vals"
  shows "first_index (sort_key fkey vals) v = competition_rank vals v"
proof -
  have "takeWhile (\<lambda>y. y \<noteq> v) (sort_key fkey vals) = filter (\<lambda>y. fkey y < fkey v) (sort_key fkey vals)"
    using assms(2) by (intro sorted_takeWhile_filter) simp_all
  then have "first_index (sort_key fkey vals) v = length (filter (\<lambda>y. fkey y < fkey v) vals)"
    by (simp add: first_index_def length_filter_sort)
  also have "filter (\<lambda>y. fkey y < fkey v) vals = filter (\<lambda>u. fl_lt u v) vals"
    using assms by (intro filter_cong) (auto simp: fl_lt_fkey)
  finally show ?thesis by (simp add: competition_rank_def)
qed

lemma map_snd_dropna_s: "map snd (dropna_s s) = defined_values s"
  by (induction s) (auto simp: dropna_s_def defined_values_def dropna_def)

lemma defined_values_no_nan: "u \<in> set (defined_values s) \<Longrightarrow> \<not> isnan u"
  by (simp add: defined_values_def dropna_def)

lemma dropna_id: "(\<And>u. u \<in> set xs \<Longrightarrow> \<not> isnan u) \<Longrightarrow> dropna xs = xs"
  by (simp add: dropna_def)

lemma dropna_s_Nil: "dropna_s s = [] \<longleftrightarrow> defined_values s = []"
  using map_snd_dropna_s[of s] by (metis map_is_Nil_conv)

lemma in_dropna_s: "(k, v) \<in> set (dropna_s s) \<Longrightarrow> \<not> isnan v \<and> v \<in> set (defined_values s)"
  by (force simp: dropna_s_def defined_values_def dropna_def)

lemma rank_min_valid:
  "rank_min (dropna_s s) =
     map (\<lambda>(k, v). (k, Fin (real (competition_rank (defined_values s) v) + 1))) (dropna_s s)"
proof -
  have d: "dropna (map snd (dropna_s s)) = defined_values s"
    unfolding map_snd_dropna_s by (rule dropna_id) (rule defined_values_no_nan)
  have nn: "\<forall>u\<in>set (defined_values s). \<not> isnan u" using defined_values_no_nan by blast
  show ?thesis unfolding rank_min_def Let_def d
    by (rule map_cong[OF refl]) (auto dest!: in_dropna_s simp: first_index_rank[OF nn])
qed

lemma ranks_valid:
  "map (\<lambda>(k, r). (k, fsub r (Fin 1))) (rank_min (dropna_s s)) =
     map (\<lambda>(k, v). (k, Fin (real (competition_rank (defined_values s) v)))) (dropna_s s)"
  unfolding rank_min_valid by (simp add: fsub_def case_prod_unfold)

lemma foldl_max_Max: "foldl max (a::nat) ns = Max (set (a # ns))"
proof (induction ns arbitrary: a)
  case Nil
  show ?case by simp
next
  case (Cons n ns)
  have "Max (set (a # n # ns)) = max a (Max (set (n # ns)))" by simp
  also have "\<dots> = Max (set (max a n # ns))"
    by (cases "ns = []") (simp_all add: max.assoc)
  finally show ?case using Cons.IH[of "max a n"] by simp
qed

lemma foldl_fmax_Fin:
  "foldl fmax (Fin (real a)) (map (\<lambda>n. Fin (real n)) ns) = Fin (real (foldl max a ns))"
  by (induction ns arbitrary: a) (auto simp: fmax_def max_def)

lemma map_fst_relabel: "map fst (map (\<lambda>(k, v). (k, g v)) xs) = map fst xs"
  by (induction xs) auto

lemma map_snd_relabel: "map snd (map (\<lambda>(k, v). (k, g v)) xs) = map g (map snd xs)"
  by (induction xs) auto

lemma series_max_ranks:
  assumes "defined_values s \<noteq> []"
  shows "series_max (map (\<lambda>(k, v). (k, Fin (real (competition_rank (defined_values s) v)))) (dropna_s s))
           = Fin (real (max_rank (defined_values s)))"
proof -
  define cr where "cr = competition_rank (defined_values s)"
  from assms obtain v vs where vs: "defined_values s = v # vs" by (cases "defined_values s") auto
  have "dropna (map snd (map (\<lambda>(k, v). (k, Fin (real (cr v)))) (dropna_s s)))
          = map (\<lambda>v. Fin (real (cr v))) (v # vs)"
    unfolding map_snd_relabel map_snd_dropna_s vs by (rule dropna_id) auto
  then have "series_max (map (\<lambda>(k, v). (k, Fin (real (cr v)))) (dropna_s s))
          = foldl fmax (Fin (real (cr v))) (map (\<lambda>n. Fin (real n)) (map cr vs))"
    by (simp add: series_max_def comp_def)
  also have "\<dots> = Fin (real (Max (set (map cr (v # vs)))))"
    by (simp only: foldl_fmax_Fin foldl_max_Max list.map)
  finally show ?thesis by (simp add: max_rank_def vs cr_def)
qed

lemma rank_le_max:
  "v \<in> set vals \<Longrightarrow> competition_rank vals v \<le> max_rank vals"
  unfolding max_rank_def by (intro Max_ge) auto

lemma astype_int_Fin:
  "astype_int (map (\<lambda>(k, v). (k, Fin (of_int (f v)))) s) = Inr (map (\<lambda>(k, v). (k, f v)) s)"
  by (induction s) (auto simp: trunc_int_def)

lemma astype_int_NaN:
  "s \<noteq> [] \<Longrightarrow> astype_int (map (\<lambda>(k, v). (k, NaN)) s) = Inl IntCastingNaNError"
  by (cases s) auto

lemma scaled_value:
  assumes "r \<le> m" "0 < m"
  shows "fround (fmul64 (fdiv64 (Fin (real r)) (Fin (real m))) (Fin 99)) =
         Fin (of_int (round_half_even (f64_round (f64_round (real r / real m) * 99))))"
proof -
  let ?q = "f64_round (real r / real m)"
  have "0 \<le> real r / real m" "real r / real m \<le> 1" using assms by simp_all
  from f64_round_unit[OF this] have q: "0 \<le> ?q" "?q \<le> 1 + 1 / 2 ^ 53" by simp_all
  from f64_round_scaled[OF q] have z: "0 \<le> f64_round (?q * 99)" "f64_round (?q * 99) < 199 / 2"
    by simp_all
  have "?q \<le> 2" using q(2) by simp
  then have "\<bar>?q\<bar> < 2 ^ 1024" using q(1) by simp
  then have d: "fdiv64 (Fin (real r)) (Fin (real m)) = Fin ?q"
    using assms(2) by (simp add: fdiv64_def f64_Fin)
  have "\<bar>f64_round (?q * 99)\<bar> < 2 ^ 1024" using z by simp
  then have "fmul64 (Fin ?q) (Fin 99) = Fin (f64_round (?q * 99))"
    by (simp add: fmul64_def f64_Fin)
  then show ?thesis unfolding d by simp
qed

lemma scaled_pos:
  assumes "0 < max_rank (defined_values s)"
  shows "map (\<lambda>(k, r). (k, fround (fmul64 (fdiv64 r (Fin (real (max_rank (defined_values s))))) (Fin 99))))
           (map (\<lambda>(k, v). (k, Fin (real (competition_rank (defined_values s) v)))) (dropna_s s))
         = map (\<lambda>(k, v). (k, Fin (of_int (percentile_of (defined_values s) v)))) (dropna_s s)"
proof -
  have "fround (fmul64 (fdiv64 (Fin (real (competition_rank (defined_values s) v)))
            (Fin (real (max_rank (defined_values s))))) (Fin 99))
        = Fin (of_int (percentile_of (defined_values s) v))"
    if "(k, v) \<in> set (dropna_s s)" for k v
    unfolding percentile_of_def
    using rank_le_max[of v "defined_values s"] in_dropna_s[OF that] assms
    by (intro scaled_value) simp_all
  then show ?thesis by (auto simp: case_prod_unfold)
qed

lemma scaled_zero:
  assumes "max_rank (defined_values s) = 0"
  shows "map (\<lambda>(k, r). (k, fround (fmul64 (fdiv64 r (Fin (real (max_rank (defined_values s))))) (Fin 99))))
           (map (\<lambda>(k, v). (k, Fin (real (competition_rank (defined_values s) v)))) (dropna_s s))
         = map (\<lambda>(k, v). (k, NaN)) (dropna_s s)"
proof -
  have "competition_rank (defined_values s) v = 0" if "(k, v) \<in> set (dropna_s s)" for k v
    using rank_le_max[of v "defined_values s"] in_dropna_s[OF that] assms by simp
  then show ?thesis unfolding assms
    by (auto simp: inf_of_sign_def fdiv64_def fmul64_def)
qed

lemma map_of_valid:
  assumes "distinct (map fst s)" "(k, v) \<in> set s"
  shows "map_of (map (\<lambda>(k, v). (k, f v)) (dropna_s s)) k = (if isnan v then None else Some (f v))"
proof (cases "isnan v")
  case True
  have "k \<notin> fst ` set (dropna_s s)"
  proof
    assume "k \<in> fst ` set (dropna_s s)"
    then obtain v' where v': "(k, v') \<in> set (dropna_s s)" by auto
    then have "(k, v') \<in> set s" "\<not> isnan v'" by (auto simp: dropna_s_def)
    with assms have "v' = v" by (meson eq_key_imp_eq_value)
    with True \<open>\<not> isnan v'\<close> show False by simp
  qed
  then have "map_of (map (\<lambda>(k, v). (k, f v)) (dropna_s s)) k = None"
    by (simp add: map_of_eq_None_iff image_image case_prod_unfold)
  then show ?thesis using True by simp
next
  case False
  then have "(k, v) \<in> set (dropna_s s)" using assms(2) by (simp add: dropna_s_def)
  then have in': "(k, f v) \<in> set (map (\<lambda>(k, v). (k, f v)) (dropna_s s))" by force
  have "distinct (map fst (map (\<lambda>(k, v). (k, f v)) (dropna_s s)))"
    unfolding map_fst_relabel dropna_s_def using assms(1) by (rule distinct_map_filter)
  from map_of_is_SomeI[OF this in'] show ?thesis using False by simp
qed


lemma calculate_rs_percentile_char:
  assumes "distinct (map fst s)"
  shows "calculate_rs_percentile s =
    (if defined_values s = [] then Inr (map (\<lambda>(k, v). (k, None)) s)
     else if max_rank (defined_values s) = 0 then Inl IntCastingNaNError
     else Inr (map (\<lambda>(k, v). (k, if isnan v then None
                                   else Some (percentile_of (defined_values s) v))) s))"
proof (cases "defined_values s = []")
  case True
  then show ?thesis by (simp add: calculate_rs_percentile_def dropna_s_Nil)
next
  case ne: False
  then have ne': "dropna_s s \<noteq> []" by (simp add: dropna_s_Nil)
  show ?thesis
  proof (cases "max_rank (defined_values s) = 0")
    case True
    have "calculate_rs_percentile s = Inl IntCastingNaNError"
      unfolding calculate_rs_percentile_def Let_def ranks_valid series_max_ranks[OF ne]
        scaled_zero[OF True]
      using ne' by (simp add: astype_int_NaN)
    then show ?thesis using ne True by simp
  next
    case False
    then have pos: "0 < max_rank (defined_values s)" by simp
    have "map (\<lambda>(k, v). (k, map_of (map (\<lambda>(k, v). (k, percentile_of (defined_values s) v)) (dropna_s s)) k)) s
        = map (\<lambda>(k, v). (k, if isnan v then None else Some (percentile_of (defined_values s) v))) s"
      by (rule map_cong[OF refl]) (auto simp: map_of_valid[OF assms])
    then have "calculate_rs_percentile s =
        Inr (map (\<lambda>(k, v). (k, if isnan v then None
                                else Some (percentile_of (defined_values s) v))) s)"
      unfolding calculate_rs_percentile_def Let_def ranks_valid series_max_ranks[OF ne]
        scaled_pos[OF pos] astype_int_Fin
      using ne' by simp
    then show ?thesis using ne False by simp
  qed
qed

lemma fl_lt_irrefl: "\<not> fl_lt v v"
  by (cases v) auto

lemma fl_lt_trans_le:
  "\<not> isnan u \<Longrightarrow> \<not> isnan v \<Longrightarrow> \<not> isnan w \<Longrightarrow> fl_lt u w \<Longrightarrow> \<not> fl_lt v w \<Longrightarrow> fl_lt u v"
  by (simp add: fl_lt_fkey)

lemma fl_lt_total: "\<not> isnan a \<Longrightarrow> \<not> isnan b \<Longrightarrow> a \<noteq> b \<Longrightarrow> fl_lt a b \<or> fl_lt b a"
  by (metis fl_lt_fkey inj_fkey linorder_neqE)

lemma length_filter_mono:
  "(\<And>x. x \<in> set xs \<Longrightarrow> P x \<Longrightarrow> Q x) \<Longrightarrow> length (filter P xs) \<le> length (filter Q xs)"
  by (induction xs) auto

lemma competition_rank_zero_iff:
  "competition_rank vals v = 0 \<longleftrightarrow> (\<forall>u\<in>set vals. \<not> fl_lt u v)"
  by (auto simp: competition_rank_def filter_empty_conv)

lemma competition_rank_mono:
  assumes "\<And>u. u \<in> set vals \<Longrightarrow> \<not> isnan u" "\<not> isnan v" "\<not> isnan w" "\<not> fl_lt v w"
  shows "competition_rank vals w \<le> competition_rank vals v"
  unfolding competition_rank_def using assms
  by (intro length_filter_mono) (blast intro: fl_lt_trans_le)

lemma max_rank_attained:
  "vals \<noteq> [] \<Longrightarrow> \<exists>w\<in>set vals. max_rank vals = competition_rank vals w"
proof -
  assume "vals \<noteq> []"
  then have "Max (competition_rank vals ` set vals) \<in> competition_rank vals ` set vals"
    by (intro Max_in) auto
  then show ?thesis by (auto simp: max_rank_def)
qed

lemma max_rank_of_maximum:
  assumes nn: "\<And>u. u \<in> set vals \<Longrightarrow> \<not> isnan u" and v: "v \<in> set vals"
    and top: "\<forall>u\<in>set vals. \<not> fl_lt v u"
  shows "competition_rank vals v = max_rank vals"
proof -
  from v have "vals \<noteq> []" by auto
  from max_rank_attained[OF this] obtain w where w: "w \<in> set vals"
    "max_rank vals = competition_rank vals w" by blast
  have "competition_rank vals w \<le> competition_rank vals v"
    using nn v w(1) top by (intro competition_rank_mono) auto
  then show ?thesis using rank_le_max[OF v] w(2) by simp
qed

lemma max_rank_pos_iff:
  assumes nn: "\<And>u. u \<in> set vals \<Longrightarrow> \<not> isnan u" and ne: "vals \<noteq> []"
  shows "0 < max_rank vals \<longleftrightarrow> 1 < card (set vals)"
proof
  assume pos: "0 < max_rank vals"
  from max_rank_attained[OF ne] obtain w where w: "w \<in> set vals"
    "max_rank vals = competition_rank vals w" by blast
  with pos have "competition_rank vals w \<noteq> 0" by simp
  then obtain u where u: "u \<in> set vals" "fl_lt u w"
    unfolding competition_rank_zero_iff by blast
  then have "u \<noteq> w" using fl_lt_irrefl by blast
  then have "card {u, w} = 2" by simp
  moreover have "card {u, w} \<le> card (set vals)" using u(1) w(1) by (intro card_mono) auto
  ultimately show "1 < card (set vals)" by simp
next
  assume "1 < card (set vals)"
  then obtain a b where ab: "a \<in> set vals" "b \<in> set vals" "a \<noteq> b"
    by (metis One_nat_def card_le_Suc0_iff_eq List.finite_set not_less)
  then have "fl_lt a b \<or> fl_lt b a" using nn fl_lt_total by blast
  then obtain u w where uw: "u \<in> set vals" "w \<in> set vals" "fl_lt u w" using ab by blast
  then have "competition_rank vals w \<noteq> 0" unfolding competition_rank_zero_iff by blast
  then show "0 < max_rank vals" using rank_le_max[OF uw(2)] by simp
qed

lemma round_half_even_int: "round_half_even (of_int n) = n"
  by (simp add: round_half_even_def)

lemma round_half_even_cases:
  "round_half_even x = \<lfloor>x\<rfloor> \<or> round_half_even x = \<lfloor>x\<rfloor> + 1"
  by (simp add: round_half_even_def Let_def)

lemma round_half_even_bounds:
  assumes "0 \<le> x" "x < 199 / 2"
  shows "0 \<le> round_half_even x \<and> round_half_even x \<le> 99"
proof -
  have f99: "\<lfloor>x\<rfloor> \<le> 99" using assms(2) by (simp add: floor_le_iff)
  show ?thesis
  proof (cases "\<lfloor>x\<rfloor> = 99")
    case True
    then have "x - of_int \<lfloor>x\<rfloor> < 1 / 2" using assms(2) by simp
    then have "round_half_even x = 99" using True by (simp add: round_half_even_def Let_def)
    then show ?thesis by simp
  next
    case False
    then have "\<lfloor>x\<rfloor> \<le> 98" using f99 by linarith
    then show ?thesis
      using round_half_even_nonneg[OF assms(1)] round_half_even_cases[of x] by linarith
  qed
qed

lemma percentile_bounds:
  assumes "v \<in> set vals" "0 < max_rank vals"
  shows "0 \<le> percentile_of vals v \<and> percentile_of vals v \<le> 99"
proof -
  let ?r = "real (competition_rank vals v)" and ?m = "real (max_rank vals)"
  have "?r \<le> ?m" using rank_le_max[OF assms(1)] by simp
  then have "?r / ?m \<le> 1" using assms(2) by (simp add: divide_le_eq_1)
  moreover have "0 \<le> ?r / ?m" by simp
  ultimately have "0 \<le> f64_round (?r / ?m) \<and> f64_round (?r / ?m) \<le> 1 + 1 / 2 ^ 53"
    by (intro f64_round_unit)
  then have "0 \<le> f64_round (f64_round (?r / ?m) * 99) \<and> f64_round (f64_round (?r / ?m) * 99) < 199 / 2"
    by (intro f64_round_scaled) simp_all
  then show ?thesis unfolding percentile_of_def by (intro round_half_even_bounds) simp_all
qed

lemma percentile_min:
  "\<forall>u\<in>set vals. \<not> fl_lt u v \<Longrightarrow> percentile_of vals v = 0"
  using competition_rank_zero_iff[of vals v] round_half_even_int[of 0]
  by (simp add: percentile_of_def f64_round_0)

lemma percentile_max:
  assumes "\<And>u. u \<in> set vals \<Longrightarrow> \<not> isnan u" "v \<in> set vals" "0 < max_rank vals"
    "\<forall>u\<in>set vals. \<not> fl_lt v u"
  shows "percentile_of vals v = 99"
  using max_rank_of_maximum[OF assms(1,2,4)] assms(3) round_half_even_int[of 99]
  by (simp add: percentile_of_def f64_round_1 f64_round_99)

lemma map_of_relabel:
  assumes "distinct (map fst s)" "(k, v) \<in> set s"
  shows "map_of (map (\<lambda>(k, v). (k, g v)) s) k = Some (g v)"
proof -
  have "distinct (map fst (map (\<lambda>(k, v). (k, g v)) s))"
    unfolding map_fst_relabel by (rule assms(1))
  moreover have "(k, g v) \<in> set (map (\<lambda>(k, v). (k, g v)) s)" using assms(2) by force
  ultimately show ?thesis by (rule map_of_is_SomeI)
qed

text \<open>
  C1.  For a column with unique labels and more than one distinct defined value,
  \<open>calculate_rs_percentile\<close> returns normally; every defined entry gets an integer
  percentile in \<open>[0, 99]\<close>, equal to \<open>round(rank / max_rank * 99)\<close> as binary64 evaluates
  it (the quotient and the product each rounded to the nearest binary64 value, the
  result rounded half to even), where \<open>rank\<close> is the number of strictly smaller defined
  values; a minimum defined value gets 0, a maximum defined value gets 99, entries with
  equal values get equal percentiles, and undefined entries get none.
\<close>

theorem calculate_rs_percentile_ranks:
  assumes dist: "distinct (map fst rs_values)"
    and two: "1 < card (set (defined_values rs_values))"
  shows "\<exists>res. calculate_rs_percentile rs_values = Inr res \<and> map fst res = map fst rs_values \<and>
     (\<forall>(k, v)\<in>set rs_values.
        (isnan v \<longrightarrow> map_of res k = Some None) \<and>
        (\<not> isnan v \<longrightarrow>
           (\<exists>p. map_of res k = Some (Some p) \<and> 0 \<le> p \<and> p \<le> 99 \<and>
              p = round_half_even
                    (f64_round
                       (f64_round (real (competition_rank (defined_values rs_values) v) /
                                   real (max_rank (defined_values rs_values))) * 99)) \<and>
              ((\<forall>u\<in>set (defined_values rs_values). \<not> fl_lt u v) \<longrightarrow> p = 0) \<and>
              ((\<forall>u\<in>set (defined_values rs_values). \<not> fl_lt v u) \<longrightarrow> p = 99) \<and>
              (\<forall>(k', v')\<in>set rs_values. v' = v \<longrightarrow> map_of res k' = Some (Some p)))))"
proof -
  let ?vals = "defined_values rs_values"
  let ?g = "\<lambda>v. if isnan v then None else Some (percentile_of ?vals v)"
  let ?res = "map (\<lambda>(k, v). (k, ?g v)) rs_values"
  have nn: "\<And>u. u \<in> set ?vals \<Longrightarrow> \<not> isnan u" by (rule defined_values_no_nan)
  have ne: "?vals \<noteq> []" using two by auto
  have pos: "0 < max_rank ?vals" using max_rank_pos_iff[OF nn ne] two by simp
  have calc: "calculate_rs_percentile rs_values = Inr ?res"
    using calculate_rs_percentile_char[OF dist] ne pos by simp
  have keys: "map fst ?res = map fst rs_values" by (rule map_fst_relabel)
  have look: "map_of ?res k = Some (?g v)" if "(k, v) \<in> set rs_values" for k v
    using map_of_relabel[OF dist that] .
  have inv: "v \<in> set ?vals" if "(k, v) \<in> set rs_values" "\<not> isnan v" for k v
    using that by (force simp: defined_values_def dropna_def)
  have "\<forall>(k, v)\<in>set rs_values.
        (isnan v \<longrightarrow> map_of ?res k = Some None) \<and>
        (\<not> isnan v \<longrightarrow>
           (\<exists>p. map_of ?res k = Some (Some p) \<and> 0 \<le> p \<and> p \<le> 99 \<and>
              p = round_half_even
                    (f64_round
                       (f64_round (real (competition_rank ?vals v) / real (max_rank ?vals)) * 99)) \<and>
              ((\<forall>u\<in>set ?vals. \<not> fl_lt u v) \<longrightarrow> p = 0) \<and>
              ((\<forall>u\<in>set ?vals. \<not> fl_lt v u) \<longrightarrow> p = 99) \<and>
              (\<forall>(k', v')\<in>set rs_values. v' = v \<longrightarrow> map_of ?res k' = Some (Some p))))"
  proof (intro ballI, clarify, intro conjI impI)
    fix k v assume kv: "(k, v) \<in> set rs_values" and "isnan v"
    then show "map_of ?res k = Some None" using look[OF kv] by simp
  next
    fix k v assume kv: "(k, v) \<in> set rs_values" and d: "\<not> isnan v"
    let ?p = "percentile_of ?vals v"
    have v: "v \<in> set ?vals" using inv[OF kv d] .
    have 1: "map_of ?res k = Some (Some ?p)" using look[OF kv] d by simp
    have 2: "0 \<le> ?p \<and> ?p \<le> 99" using percentile_bounds[OF v pos] .
    have 3: "?p = round_half_even
                    (f64_round
                       (f64_round (real (competition_rank ?vals v) / real (max_rank ?vals)) * 99))"
      by (simp only: percentile_of_def)
    have 4: "(\<forall>u\<in>set ?vals. \<not> fl_lt u v) \<longrightarrow> ?p = 0" using percentile_min by blast
    have 5: "(\<forall>u\<in>set ?vals. \<not> fl_lt v u) \<longrightarrow> ?p = 99"
      using percentile_max[OF nn v pos] by blast
    have 6: "\<forall>(k', v')\<in>set rs_values. v' = v \<longrightarrow> map_of ?res k' = Some (Some ?p)"
      using look d by auto
    show "\<exists>p. map_of ?res k = Some (Some p) \<and> 0 \<le> p \<and> p \<le> 99 \<and>
              p = round_half_even
                    (f64_round
                       (f64_round (real (competition_rank ?vals v) / real (max_rank ?vals)) * 99)) \<and>
              ((\<forall>u\<in>set ?vals. \<not> fl_lt u v) \<longrightarrow> p = 0) \<and>
              ((\<forall>u\<in>set ?vals. \<not> fl_lt v u) \<longrightarrow> p = 99) \<and>
              (\<forall>(k', v')\<in>set rs_values. v' = v \<longrightarrow> map_of ?res k' = Some (Some p))"
      using 1 2 3 4 5 6 by (intro exI[of _ ?p]) (simp only: simp_thms)
  qed
  with calc keys show ?thesis by (intro exI[of _ ?res]) (simp only: simp_thms)
qed

lemma degenerate_raises:
  assumes "distinct (map fst s)" "card (set (defined_values s)) = 1"
  shows "calculate_rs_percentile s = Inl IntCastingNaNError"
proof -
  have nn: "\<And>u. u \<in> set (defined_values s) \<Longrightarrow> \<not> isnan u" by (rule defined_values_no_nan)
  have ne: "defined_values s \<noteq> []" using assms(2) by auto
  have "max_rank (defined_values s) = 0" using max_rank_pos_iff[OF nn ne] assms(2) by simp
  then show ?thesis using calculate_rs_percentile_char[OF assms(1)] ne by simp
qed

lemmas rank_eval_defs =
  defined_values_def dropna_def max_rank_def competition_rank_def percentile_of_def
  round_half_even_def f64_round_0 f64_round_1 f64_round_99

text \<open>
  A column of twenty entries for the example below: eleven distinct values, a tie of two
  at rank 11, six larger values up to the highest rank 18, and one undefined entry.
\<close>

theorem calculate_rs_percentile_ranks_witness:
  "distinct (map fst
     [(''A'', Fin 1), (''B'', Fin 2), (''C'', Fin 3), (''D'', Fin 4), (''E'', Fin 5),
      (''F'', Fin 6), (''G'', Fin 7), (''H'', Fin 8), (''I'', Fin 9), (''J'', Fin 10),
      (''K'', Fin 11), (''L'', Fin 12), (''M'', Fin 12), (''N'', Fin 14), (''O'', Fin 15),
      (''P'', Fin 16), (''Q'', Fin 17), (''R'', Fin 18), (''S'', Fin 19), (''T'', NaN)]) \<and>
   1 < card (set (defined_values
     [(''A'', Fin 1), (''B'', Fin 2), (''C'', Fin 3), (''D'', Fin 4), (''E'', Fin 5),
      (''F'', Fin 6), (''G'', Fin 7), (''H'', Fin 8), (''I'', Fin 9), (''J'', Fin 10),
      (''K'', Fin 11), (''L'', Fin 12), (''M'', Fin 12), (''N'', Fin 14), (''O'', Fin 15),
      (''P'', Fin 16), (''Q'', Fin 17), (''R'', Fin 18), (''S'', Fin 19), (''T'', NaN)])) \<and>
   (\<exists>res. calculate_rs_percentile
     [(''A'', Fin 1), (''B'', Fin 2), (''C'', Fin 3), (''D'', Fin 4), (''E'', Fin 5),
      (''F'', Fin 6), (''G'', Fin 7), (''H'', Fin 8), (''I'', Fin 9), (''J'', Fin 10),
      (''K'', Fin 11), (''L'', Fin 12), (''M'', Fin 12), (''N'', Fin 14), (''O'', Fin 15),
      (''P'', Fin 16), (''Q'', Fin 17), (''R'', Fin 18), (''S'', Fin 19), (''T'', NaN)] = Inr res \<and>
      map_of res ''A'' = Some (Some 0) \<and> map_of res ''L'' = Some (Some 61) \<and>
      map_of res ''M'' = Some (Some 61) \<and> map_of res ''S'' = Some (Some 99) \<and>
      map_of res ''T'' = Some None)"
proof -
  define X where "X =
     [(''A'', Fin 1), (''B'', Fin 2), (''C'', Fin 3), (''D'', Fin 4), (''E'', Fin 5),
      (''F'', Fin 6), (''G'', Fin 7), (''H'', Fin 8), (''I'', Fin 9), (''J'', Fin 10),
      (''K'', Fin 11), (''L'', Fin 12), (''M'', Fin 12), (''N'', Fin 14), (''O'', Fin 15),
      (''P'', Fin 16), (''Q'', Fin 17), (''R'', Fin 18), (''S'', Fin 19), (''T'', NaN)]"
  define vals where "vals = defined_values X"
  have vals: "vals = [Fin 1, Fin 2, Fin 3, Fin 4, Fin 5, Fin 6, Fin 7, Fin 8, Fin 9, Fin 10,
      Fin 11, Fin 12, Fin 12, Fin 14, Fin 15, Fin 16, Fin 17, Fin 18, Fin 19]"
    by (simp add: vals_def X_def defined_values_def dropna_def)
  have h1: "distinct (map fst X)" by (simp add: X_def)
  have h2: "1 < card (set (defined_values X))" unfolding vals_def[symmetric] vals by simp
  have cr: "competition_rank vals (Fin 12) = 11"
    unfolding vals by (simp add: competition_rank_def)
  have mr: "max_rank vals = 18"
    unfolding vals by (simp add: max_rank_def competition_rank_def)
  have lo: "\<forall>u\<in>set vals. \<not> fl_lt u (Fin 1)" unfolding vals by simp
  have hi: "\<forall>u\<in>set vals. \<not> fl_lt (Fin 19) u" unfolding vals by simp
  from calculate_rs_percentile_ranks [OF h1 h2] obtain res where
    res: "calculate_rs_percentile X = Inr res"
    and look: "\<forall>(k, v)\<in>set X.
        (isnan v \<longrightarrow> map_of res k = Some None) \<and>
        (\<not> isnan v \<longrightarrow>
           (\<exists>p. map_of res k = Some (Some p) \<and> 0 \<le> p \<and> p \<le> 99 \<and>
              p = round_half_even
                    (f64_round (f64_round (real (competition_rank vals v) / real (max_rank vals)) * 99)) \<and>
              ((\<forall>u\<in>set vals. \<not> fl_lt u v) \<longrightarrow> p = 0) \<and>
              ((\<forall>u\<in>set vals. \<not> fl_lt v u) \<longrightarrow> p = 99) \<and>
              (\<forall>(k', v')\<in>set X. v' = v \<longrightarrow> map_of res k' = Some (Some p))))"
    unfolding vals_def by blast
  have "(''A'', Fin 1) \<in> set X" by (simp add: X_def)
  from bspec[OF look this] lo have a: "map_of res ''A'' = Some (Some 0)" by auto
  have "(''S'', Fin 19) \<in> set X" by (simp add: X_def)
  from bspec[OF look this] hi have s: "map_of res ''S'' = Some (Some 99)" by auto
  have "(''T'', NaN) \<in> set X" by (simp add: X_def)
  from bspec[OF look this] have t: "map_of res ''T'' = Some None" by simp
  have inL: "(''L'', Fin 12) \<in> set X" and inM: "(''M'', Fin 12) \<in> set X" by (simp_all add: X_def)
  from bspec[OF look inL] obtain p where
    p: "p = round_half_even
              (f64_round (f64_round (real (competition_rank vals (Fin 12)) / real (max_rank vals)) * 99))"
    and ties: "\<forall>(k', v')\<in>set X. v' = Fin 12 \<longrightarrow> map_of res k' = Some (Some p)"
    by auto
  have "p = 61" unfolding p cr mr using f64_round_11_18(1) by simp
  with ties inL inM have l: "map_of res ''L'' = Some (Some 61)" and m: "map_of res ''M'' = Some (Some 61)"
    by auto
  from res a l m s t h1 h2 show ?thesis unfolding X_def by blast
qed

text \<open>
  C4 does not hold of the code.  When all defined entries share one value every rank is
  0, \<open>ranks.max()\<close> is 0, \<open>0 / 0\<close> is NaN and \<open>astype(int)\<close> raises: for one defined
  entry, and for ten entries with identical values, \<open>calculate_rs_percentile\<close> raises
  instead of returning percentile 0.
\<close>

theorem calculate_rs_percentile_degenerate:
  "calculate_rs_percentile [(''A'', Fin 100)] = Inl IntCastingNaNError \<and>
   calculate_rs_percentile [(''A'', Fin 100), (''B'', NaN)] = Inl IntCastingNaNError \<and>
   calculate_rs_percentile
     [(''T0'', Fin 100), (''T1'', Fin 100), (''T2'', Fin 100), (''T3'', Fin 100), (''T4'', Fin 100),
      (''T5'', Fin 100), (''T6'', Fin 100), (''T7'', Fin 100), (''T8'', Fin 100), (''T9'', Fin 100)]
     = Inl IntCastingNaNError"
  by (intro conjI degenerate_raises) (simp_all add: defined_values_def dropna_def)

lemma map_of_mset_eq:
  assumes "distinct (map fst xs)" "mset ys = mset xs"
  shows "map_of ys = map_of xs"
proof
  fix k
  have sets: "set ys = set xs" using assms(2) by (rule mset_eq_setD)
  have "mset (map fst ys) = mset (map fst xs)" using assms(2) by (metis mset_map)
  then have dy: "distinct (map fst ys)" using assms(1) by (metis mset_eq_imp_distinct_iff)
  show "map_of ys k = map_of xs k"
  proof (cases "map_of xs k")
    case None
    then show ?thesis by (metis sets map_of_eq_None_iff)
  next
    case (Some v)
    then have "(k, v) \<in> set ys" unfolding sets by (rule map_of_SomeD)
    then show ?thesis using Some map_of_is_SomeI[OF dy] by simp
  qed
qed

lemma defined_values_mset:
  "mset ys = mset xs \<Longrightarrow> mset (defined_values ys) = mset (defined_values xs)"
  unfolding defined_values_def dropna_def by (metis mset_filter mset_map)

lemma competition_rank_mset:
  assumes "mset a = mset b"
  shows "competition_rank a v = competition_rank b v"
proof -
  have "mset (filter (\<lambda>u. fl_lt u v) a) = mset (filter (\<lambda>u. fl_lt u v) b)"
    using assms by (simp only: mset_filter)
  then show ?thesis unfolding competition_rank_def by (metis size_mset)
qed

lemma max_rank_mset:
  assumes "mset a = mset b"
  shows "max_rank a = max_rank b"
proof -
  have "set a = set b" using assms by (rule mset_eq_setD)
  moreover have "competition_rank a = competition_rank b"
    using competition_rank_mset[OF assms] by (intro ext)
  ultimately show ?thesis by (simp add: max_rank_def)
qed

lemma percentile_of_mset:
  "mset a = mset b \<Longrightarrow> percentile_of a v = percentile_of b v"
  by (simp add: percentile_of_def competition_rank_mset[of a b] max_rank_mset[of a b])

lemma map_of_relabel_comp: "map_of (map (\<lambda>(k, v). (k, g v)) s) = map_option g \<circ> map_of s"
  by (rule map_of_map)

text \<open>
  C9.  For a column with unique labels, \<open>calculate_rs_percentile\<close> gives every label the
  same result on every permutation of the entries: either both calls raise the same
  exception, or both return and each label has the same percentile (or none) in both.
\<close>

theorem calculate_rs_percentile_permutation:
  assumes perm: "mset ys = mset xs" and dist: "distinct (map fst xs)"
  shows "map_sum id map_of (calculate_rs_percentile ys)
       = map_sum id map_of (calculate_rs_percentile xs)"
proof -
  have "mset (map fst ys) = mset (map fst xs)" using perm by (metis mset_map)
  then have dy: "distinct (map fst ys)" using dist by (metis mset_eq_imp_distinct_iff)
  have m: "map_of ys = map_of xs" using map_of_mset_eq[OF dist perm] .
  have dv: "mset (defined_values ys) = mset (defined_values xs)"
    using defined_values_mset[OF perm] .
  have e: "defined_values ys = [] \<longleftrightarrow> defined_values xs = []"
    using dv by (metis mset_zero_iff)
  have mr: "max_rank (defined_values ys) = max_rank (defined_values xs)"
    using max_rank_mset[OF dv] .
  have pc: "\<And>v. percentile_of (defined_values ys) v = percentile_of (defined_values xs) v"
    using percentile_of_mset[OF dv] .
  show ?thesis
    unfolding calculate_rs_percentile_char[OF dist] calculate_rs_percentile_char[OF dy]
    by (simp add: e mr pc map_of_relabel_comp m cong: if_cong)
qed

theorem calculate_rs_percentile_permutation_witness:
  "mset [(''B'', Fin 2), (''C'', NaN), (''A'', Fin 1)] = mset [(''A'', Fin 1), (''B'', Fin 2), (''C'', NaN)] \<and>
   distinct (map fst [(''A'', Fin 1), (''B'', Fin 2), (''C'', NaN)]) \<and>
   map_sum id map_of (calculate_rs_percentile [(''B'', Fin 2), (''C'', NaN), (''A'', Fin 1)])
     = map_sum id map_of (calculate_rs_percentile [(''A'', Fin 1), (''B'', Fin 2), (''C'', NaN)])"
proof -
  have h1: "mset [(''B'', Fin 2), (''C'', NaN), (''A'', Fin 1)]
          = mset [(''A'', Fin 1), (''B'', Fin 2), (''C'', NaN)]" by simp
  have h2: "distinct (map fst [(''A'', Fin 1), (''B'', Fin 2), (''C'', NaN)])" by simp
  from calculate_rs_percentile_permutation [OF h1 h2] h1 h2 show ?thesis by blast
qed

section \<open>Properties of the scoring pipeline\<close>

lemma slice_to_neg_Nil: "slice_to_neg k xs = [] \<longleftrightarrow> length xs \<le> k"
  by (auto simp: slice_to_neg_def)

lemma relative_strength_empty_ref: "relative_strength pad closes [] = NaN"
  by (simp add: relative_strength_def strength_empty)

lemma lag_value:
  "(if length closes > k
    then relative_strength pad (slice_to_neg k closes) (slice_to_neg k ref_closes) else NaN)
   = (if slice_to_neg k closes \<noteq> [] \<and> slice_to_neg k ref_closes \<noteq> []
      then relative_strength pad (slice_to_neg k closes) (slice_to_neg k ref_closes) else NaN)"
proof (cases "slice_to_neg k ref_closes = []")
  case True
  then show ?thesis by (simp add: relative_strength_empty_ref)
next
  case False
  then show ?thesis by (simp add: slice_to_neg_Nil not_le)
qed

lemma process_ticker_lags:
  assumes "lib t = Some closes" "2 \<le> length closes"
  shows "process_ticker pad lib ref_closes t =
    \<lparr>ticker = t,
     rs = relative_strength pad closes ref_closes,
     rs_1m = (if slice_to_neg 20 closes \<noteq> [] \<and> slice_to_neg 20 ref_closes \<noteq> []
              then relative_strength pad (slice_to_neg 20 closes) (slice_to_neg 20 ref_closes)
              else NaN),
     rs_3m = (if slice_to_neg 60 closes \<noteq> [] \<and> slice_to_neg 60 ref_closes \<noteq> []
              then relative_strength pad (slice_to_neg 60 closes) (slice_to_neg 60 ref_closes)
              else NaN),
     rs_6m = (if slice_to_neg 120 closes \<noteq> [] \<and> slice_to_neg 120 ref_closes \<noteq> []
              then relative_strength pad (slice_to_neg 120 closes) (slice_to_neg 120 ref_closes)
              else NaN)\<rparr>"
  using assms unfolding process_ticker_def by (simp only: lag_value option.case) simp

lemma slice_to_neg_append:
  "k \<le> length xs \<Longrightarrow> slice_to_neg k xs @ trailing k xs = xs"
  by (simp add: slice_to_neg_def trailing_def)

text \<open>
  C7.  For every ticker other than the benchmark whose read succeeds with at least 2
  observations, the loop produces the row holding the current RS and the three lagged RS
  values: the lag of \<open>k = 20, 60, 120\<close> truncates the last \<open>k\<close> observations off both the
  target and the benchmark series and calls \<open>relative_strength\<close> on the truncated pair;
  the lag is undefined when a truncated series is empty.
\<close>

theorem lagged_rs_rows:
  assumes "t \<in> set tickers" "t \<noteq> reference_ticker" "lib t = Some closes" "2 \<le> length closes"
  shows "\<lparr>ticker = t,
     rs = relative_strength pad closes ref_closes,
     rs_1m = (if slice_to_neg 20 closes \<noteq> [] \<and> slice_to_neg 20 ref_closes \<noteq> []
              then relative_strength pad (slice_to_neg 20 closes) (slice_to_neg 20 ref_closes)
              else NaN),
     rs_3m = (if slice_to_neg 60 closes \<noteq> [] \<and> slice_to_neg 60 ref_closes \<noteq> []
              then relative_strength pad (slice_to_neg 60 closes) (slice_to_neg 60 ref_closes)
              else NaN),
     rs_6m = (if slice_to_neg 120 closes \<noteq> [] \<and> slice_to_neg 120 ref_closes \<noteq> []
              then relative_strength pad (slice_to_neg 120 closes) (slice_to_neg 120 ref_closes)
              else NaN)\<rparr>
    \<in> set (rs_loop pad lib ref_closes tickers reference_ticker)
   \<and> (\<forall>k\<in>{20, 60, 120}. k \<le> length closes \<longrightarrow>
         slice_to_neg k closes @ trailing k closes = closes \<and>
         length (slice_to_neg k closes) = length closes - k)"
proof -
  have "process_ticker pad lib ref_closes t \<in> set (rs_loop pad lib ref_closes tickers reference_ticker)"
    unfolding rs_loop_def using assms(1,2) by simp
  then show ?thesis
    unfolding process_ticker_lags[where lib=lib and t=t and closes=closes, OF assms(3,4)]
    by (simp add: slice_to_neg_append) (simp add: slice_to_neg_def)
qed

theorem lagged_rs_rows_witness:
  "''N'' \<in> set [''SPY'', ''N''] \<and> ''N'' \<noteq> ''SPY'' \<and>
   demo_store ''N'' = Some (replicate 21 (Fin 1) @ [Fin 2]) \<and>
   2 \<le> length (replicate 21 (Fin 1) @ [Fin 2]) \<and>
   \<lparr>ticker = ''N'', rs = Fin 200, rs_1m = Fin 100, rs_3m = NaN, rs_6m = NaN\<rparr>
     \<in> set (rs_loop True demo_store (replicate 25 (Fin 100)) [''SPY'', ''N''] ''SPY'')"
proof -
  let ?closes = "replicate 21 (Fin 1) @ [Fin 2]" and ?ref = "replicate 25 (Fin 100)"
  have h1: "''N'' \<in> set [''SPY'', ''N'']" by simp
  have h2: "''N'' \<noteq> ''SPY''" by simp
  have h3: "demo_store ''N'' = Some ?closes" by (simp add: demo_store_def)
  have h4: "2 \<le> length ?closes" by simp
  have s20: "slice_to_neg 20 ?closes = [Fin 1, Fin 1]" "slice_to_neg 60 ?closes = []"
    "slice_to_neg 120 ?closes = []"
    "slice_to_neg 20 ?ref = [Fin 100, Fin 100, Fin 100, Fin 100, Fin 100]"
    by (simp_all add: slice_to_neg_def eval_nat_numeral)
  have e0: "relative_strength True ?closes ?ref = Fin 200"
    by (simp add: eval_defs eval_nat_numeral)
  have e1: "relative_strength True [Fin 1, Fin 1] [Fin 100, Fin 100, Fin 100, Fin 100, Fin 100]
      = Fin 100"
    by (simp add: eval_defs)
  from lagged_rs_rows [where tickers="[''SPY'', ''N'']" and lib=demo_store and t="''N''"
      and closes="?closes" and pad=True and ref_closes="?ref", OF h1 h2 h3 h4]
  have "\<lparr>ticker = ''N'', rs = Fin 200, rs_1m = Fin 100, rs_3m = NaN, rs_6m = NaN\<rparr>
     \<in> set (rs_loop True demo_store ?ref [''SPY'', ''N''] ''SPY'')"
    unfolding s20 e0 e1 by simp
  with h1 h2 h3 h4 show ?thesis by (simp only: simp_thms)
qed

lemma ticker_process_ticker: "ticker (process_ticker pad lib ref_closes t) = t"
  by (simp add: process_ticker_def nan_row_def split: option.splits)

lemma process_ticker_unreadable:
  "lib t = None \<Longrightarrow> process_ticker pad lib ref_closes t = nan_row t"
  "lib t = Some closes \<Longrightarrow> length closes < 2 \<Longrightarrow> process_ticker pad lib ref_closes t = nan_row t"
  by (simp_all add: process_ticker_def)

lemma ipo_flags_unreadable:
  "t \<in> set ts \<Longrightarrow> lib t = None \<Longrightarrow> ipo_flags lib ts = Inl ReadError"
proof (induction ts)
  case Nil
  then show ?case by simp
next
  case (Cons a ts)
  show ?case
  proof (cases "lib a")
    case None
    then show ?thesis by simp
  next
    case (Some closes)
    then have "t \<in> set ts" using Cons.prems by auto
    then show ?thesis using Cons.IH Cons.prems(2) Some by simp
  qed
qed

lemma main_unreadable_never_completes:
  assumes "t \<in> set tickers" "t \<noteq> reference_ticker" "lib t = None"
  shows "main pad lib tickers reference_ticker \<noteq> Inr rows"
proof -
  have "t \<in> set (map ticker (rs_loop pad lib ref_closes tickers reference_ticker))" for ref_closes
    using assms(1,2) by (simp add: rs_loop_def comp_def ticker_process_ticker)
  then have "ipo_flags lib (map ticker (rs_loop pad lib ref_closes tickers reference_ticker))
      = Inl ReadError" for ref_closes
    using ipo_flags_unreadable assms(3) by metis
  then show ?thesis
    unfolding main_def Let_def by (simp split: option.splits sum.splits)
qed

lemma strength_flat_benchmark: "strength pad (replicate 25 (Fin 100)) = Fin 0"
  by (cases pad) (simp_all add: eval_defs eval_nat_numeral)

lemma strength_demo:
  "strength pad [Fin 1, Fin 2] = Fin 1" "strength pad [Fin 1, Fin 3] = Fin 2"
  by (cases pad; simp add: eval_defs)+

lemma demo_loop:
  "rs_loop pad demo_store (replicate 25 (Fin 100)) [''SPY'', ''A'', ''BAD'', ''B'', ''S''] ''SPY'' =
     [\<lparr>ticker = ''A'', rs = Fin 200, rs_1m = NaN, rs_3m = NaN, rs_6m = NaN\<rparr>,
      nan_row ''BAD'',
      \<lparr>ticker = ''B'', rs = Fin 300, rs_1m = NaN, rs_3m = NaN, rs_6m = NaN\<rparr>,
      nan_row ''S'']"
  by (simp add: rs_loop_def process_ticker_def demo_store_def relative_strength_def
      strength_flat_benchmark strength_demo)

lemma demo_loop_readable:
  "rs_loop pad demo_store (replicate 25 (Fin 100)) [''SPY'', ''A'', ''B'', ''S''] ''SPY'' =
     [\<lparr>ticker = ''A'', rs = Fin 200, rs_1m = NaN, rs_3m = NaN, rs_6m = NaN\<rparr>,
      \<lparr>ticker = ''B'', rs = Fin 300, rs_1m = NaN, rs_3m = NaN, rs_6m = NaN\<rparr>,
      nan_row ''S'']"
  by (simp add: rs_loop_def process_ticker_def demo_store_def relative_strength_def
      strength_flat_benchmark strength_demo)

lemma percentile_all_nan:
  "\<forall>v\<in>set (map snd s). isnan v \<Longrightarrow>
   calculate_rs_percentile s = Inr (map (\<lambda>(k, v). (k, None)) s)"
  by (simp add: calculate_rs_percentile_def dropna_s_def filter_empty_conv case_prod_unfold)

lemma demo_percentiles:
  "calculate_rs_percentile [(0::nat, Fin 200), (1, NaN), (2, Fin 300), (3, NaN)]
     = Inr [(0, Some 0), (1, None), (2, Some 99), (3, None)]"
  "calculate_rs_percentile [(0::nat, Fin 200), (1, Fin 300), (2, NaN)]
     = Inr [(0, Some 0), (1, Some 99), (2, None)]"
  by (subst calculate_rs_percentile_char; simp add: rank_eval_defs)+

text \<open>
  C6 does not hold of the code.  The loop isolates an unreadable ticker (the row of
  \<open>BAD\<close> has all four RS fields undefined and the loop goes on to \<open>B\<close> and \<open>S\<close>), but the
  IPO flag on line 256 reads every ticker again outside any \<open>try\<close>: the read of \<open>BAD\<close>
  raises and the run aborts.  Without \<open>BAD\<close> the same run gets past line 256 with every
  IPO flag computed.
\<close>

theorem unreadable_ticker_aborts_run:
  "demo_store ''BAD'' = None \<and>
   rs_loop pad demo_store (replicate 25 (Fin 100)) [''SPY'', ''A'', ''BAD'', ''B'', ''S''] ''SPY'' =
     [\<lparr>ticker = ''A'', rs = Fin 200, rs_1m = NaN, rs_3m = NaN, rs_6m = NaN\<rparr>,
      nan_row ''BAD'',
      \<lparr>ticker = ''B'', rs = Fin 300, rs_1m = NaN, rs_3m = NaN, rs_6m = NaN\<rparr>,
      nan_row ''S''] \<and>
   main pad demo_store [''SPY'', ''A'', ''BAD'', ''B'', ''S''] ''SPY'' = Inl ReadError \<and>
   main pad demo_store [''SPY'', ''A'', ''B'', ''S''] ''SPY'' =
     Inr [\<lparr>ticker = ''A'', rs = Fin 200, rs_1m = NaN, rs_3m = NaN, rs_6m = NaN,
            rs_percentile = Some 0, rs_1m_percentile = None, rs_3m_percentile = None,
            rs_6m_percentile = None, ipo = True\<rparr>,
          \<lparr>ticker = ''B'', rs = Fin 300, rs_1m = NaN, rs_3m = NaN, rs_6m = NaN,
            rs_percentile = Some 99, rs_1m_percentile = None, rs_3m_percentile = None,
            rs_6m_percentile = None, ipo = True\<rparr>,
          \<lparr>ticker = ''S'', rs = NaN, rs_1m = NaN, rs_3m = NaN, rs_6m = NaN,
            rs_percentile = None, rs_1m_percentile = None, rs_3m_percentile = None,
            rs_6m_percentile = None, ipo = True\<rparr>]"
proof (intro conjI)
  let ?rows = "[\<lparr>ticker = ''A'', rs = Fin 200, rs_1m = NaN, rs_3m = NaN, rs_6m = NaN\<rparr>,
      nan_row ''BAD'',
      \<lparr>ticker = ''B'', rs = Fin 300, rs_1m = NaN, rs_3m = NaN, rs_6m = NaN\<rparr>,
      nan_row ''S'']"
  let ?rows' = "[\<lparr>ticker = ''A'', rs = Fin 200, rs_1m = NaN, rs_3m = NaN, rs_6m = NaN\<rparr>,
      \<lparr>ticker = ''B'', rs = Fin 300, rs_1m = NaN, rs_3m = NaN, rs_6m = NaN\<rparr>,
      nan_row ''S'']"
  show "demo_store ''BAD'' = None" by (simp add: demo_store_def)
  show "rs_loop pad demo_store (replicate 25 (Fin 100)) [''SPY'', ''A'', ''BAD'', ''B'', ''S''] ''SPY''
      = ?rows" by (rule demo_loop)
  have ref: "demo_store ''SPY'' = Some (replicate 25 (Fin 100))" by (simp add: demo_store_def)
  have c0: "column rs ?rows = [(0, Fin 200), (1, NaN), (2, Fin 300), (3, NaN)]"
    by (simp add: column_def nan_row_def upt_rec eval_nat_numeral)
  have c: "column rs_1m ?rows = [(0, NaN), (1, NaN), (2, NaN), (3, NaN)]"
    "column rs_3m ?rows = [(0, NaN), (1, NaN), (2, NaN), (3, NaN)]"
    "column rs_6m ?rows = [(0, NaN), (1, NaN), (2, NaN), (3, NaN)]"
    by (simp_all add: column_def nan_row_def upt_rec eval_nat_numeral)
  have n4: "calculate_rs_percentile [(0::nat, NaN), (1, NaN), (2, NaN), (3, NaN)]
      = Inr [(0, None), (1, None), (2, None), (3, None)]"
    by (simp add: percentile_all_nan)
  have i: "ipo_flags demo_store (map ticker ?rows) = Inl ReadError"
    by (simp add: nan_row_def demo_store_def)
  show "main pad demo_store [''SPY'', ''A'', ''BAD'', ''B'', ''S''] ''SPY'' = Inl ReadError"
    unfolding main_def Let_def ref option.case demo_loop c0 c demo_percentiles n4 i
    by simp
  have c0': "column rs ?rows' = [(0, Fin 200), (1, Fin 300), (2, NaN)]"
    by (simp add: column_def nan_row_def upt_rec eval_nat_numeral)
  have c': "column rs_1m ?rows' = [(0, NaN), (1, NaN), (2, NaN)]"
    "column rs_3m ?rows' = [(0, NaN), (1, NaN), (2, NaN)]"
    "column rs_6m ?rows' = [(0, NaN), (1, NaN), (2, NaN)]"
    by (simp_all add: column_def nan_row_def upt_rec eval_nat_numeral)
  have n3: "calculate_rs_percentile [(0::nat, NaN), (1, NaN), (2, NaN)]
      = Inr [(0, None), (1, None), (2, None)]"
    by (simp add: percentile_all_nan)
  have i': "ipo_flags demo_store (map ticker ?rows') = Inr [True, True, True]"
    by (simp add: nan_row_def demo_store_def)
  show "main pad demo_store [''SPY'', ''A'', ''B'', ''S''] ''SPY'' =
     Inr [\<lparr>ticker = ''A'', rs = Fin 200, rs_1m = NaN, rs_3m = NaN, rs_6m = NaN,
            rs_percentile = Some 0, rs_1m_percentile = None, rs_3m_percentile = None,
            rs_6m_percentile = None, ipo = True\<rparr>,
          \<lparr>ticker = ''B'', rs = Fin 300, rs_1m = NaN, rs_3m = NaN, rs_6m = NaN,
            rs_percentile = Some 99, rs_1m_percentile = None, rs_3m_percentile = None,
            rs_6m_percentile = None, ipo = True\<rparr>,
          \<lparr>ticker = ''S'', rs = NaN, rs_1m = NaN, rs_3m = NaN, rs_6m = NaN,
            rs_percentile = None, rs_1m_percentile = None, rs_3m_percentile = None,
            rs_6m_percentile = None, ipo = True\<rparr>]"
    unfolding main_def Let_def ref option.case demo_loop_readable c0' c' demo_percentiles n3 i'
    by (simp add: build_rows_def nan_row_def)
qed

end
